theory Spec2Isabelle
  imports Main "HOL-Library.Word"
begin

section \<open>The statically-allocated memory manager (memmgr.c)\<close>

subsection \<open>Configuration and memory model\<close>

text \<open>
  The header file memmgr.h is not part of the sources, so what it declares is a parameter
  of the model: the pool size, the minimal carve, and the size of a block header.  The
  addresses of the two static objects (the pool array and the sentinel header
  \<open>base\<close>) are parameters as well, since the code compares pointers into both.
\<close>

record config =
  hdr_size :: nat
  POOL_SIZE :: nat
  MIN_POOL_ALLOC_QUANTAS :: nat
  pool :: nat
  base :: nat

text \<open>
  Modelled from the spec: the type \<open>memmgr_int_t\<close> is declared in the missing header.
  The code prints values of this type with \<open>%llu\<close>, so it is taken to be an unsigned
  64-bit integer; every arithmetic operation of the code on this type is written with its
  wrap-around modulo \<open>INT_MOD\<close>.
\<close>

definition INT_MOD :: nat where
  "INT_MOD = 2 ^ 64"

text \<open>
  Memory.  A pointer is an address, a natural number, and the null pointer is 0; adding
  \<open>k\<close> to a header pointer advances the address by \<open>k * hdr_size\<close>, and addresses
  themselves do not wrap.  The two fields of the header found at an address are kept
  in the field maps \<open>h_next\<close> and \<open>h_size\<close>; the bytes that a caller sees
  through a user pointer are kept in \<open>bytes\<close>.  The static variables \<open>freep\<close> and
  \<open>pool_free_pos\<close> complete the state; the sentinel \<open>base\<close> is the header at
  address \<open>base cfg\<close>.  Header fields and payload bytes are kept apart, so a write
  through a user pointer changes no header: this is what the code does as long as the
  write stays inside the payload of a live block.
\<close>

record state =
  h_next :: "nat \<Rightarrow> nat"
  h_size :: "nat \<Rightarrow> nat"
  freep :: nat
  pool_free_pos :: nat
  bytes :: "nat \<Rightarrow> 8 word"

subsection \<open>memmgr\_init\<close>

definition memmgr_init :: "config \<Rightarrow> state \<Rightarrow> state" where
  "memmgr_init cfg s =
     s\<lparr>h_next := (h_next s)(base cfg := 0),
       h_size := (h_size s)(base cfg := 0),
       freep := 0,
       pool_free_pos := 0\<rparr>"

subsection \<open>memmgr\_free\<close>

text \<open>
  The search loop of \<open>memmgr_free\<close>.  It only reads the state.  The result
  \<open>None\<close> stands for a call that does not return: the loop runs forever, or it
  dereferences a null \<open>p\<close>.
\<close>

partial_function (option) free_scan :: "state \<Rightarrow> nat \<Rightarrow> nat \<Rightarrow> nat option" where
  "free_scan s block p =
     (if p = 0 then None
      else if block > p \<and> block < h_next s p then Some p
      else if p \<ge> h_next s p \<and> (block > p \<or> block < h_next s p) then Some p
      else free_scan s block (h_next s p))"

text \<open>The two merges after the loop, and the assignment to \<open>freep\<close>.\<close>

definition free_link :: "config \<Rightarrow> state \<Rightarrow> nat \<Rightarrow> nat \<Rightarrow> state" where
  "free_link cfg s block p =
     (let s1 = (if block + h_size s block * hdr_size cfg = h_next s p
                then s\<lparr>h_size := (h_size s)
                          (block := (h_size s block + h_size s (h_next s p)) mod INT_MOD),
                       h_next := (h_next s)(block := h_next s (h_next s p))\<rparr>
                else s\<lparr>h_next := (h_next s)(block := h_next s p)\<rparr>);
          s2 = (if p + h_size s1 p * hdr_size cfg = block
                then s1\<lparr>h_size := (h_size s1)
                           (p := (h_size s1 p + h_size s1 block) mod INT_MOD),
                        h_next := (h_next s1)(p := h_next s1 block)\<rparr>
                else s1\<lparr>h_next := (h_next s1)(p := block)\<rparr>)
      in s2\<lparr>freep := p\<rparr>)"

definition memmgr_free :: "config \<Rightarrow> state \<Rightarrow> nat \<Rightarrow> state option" where
  "memmgr_free cfg s ap =
     (if ap = 0 then Some s
      else (let block = ap - hdr_size cfg
            in case free_scan s block (freep s) of
                 None \<Rightarrow> None
               | Some p \<Rightarrow> Some (free_link cfg s block p)))"

subsection \<open>get\_mem\_from\_pool\<close>

text \<open>The result pairs the new state with the returned header pointer (0 for failure).\<close>

definition get_mem_from_pool :: "config \<Rightarrow> state \<Rightarrow> nat \<Rightarrow> (state \<times> nat) option" where
  "get_mem_from_pool cfg s nq =
     (let nquantas = (if nq < MIN_POOL_ALLOC_QUANTAS cfg
                      then MIN_POOL_ALLOC_QUANTAS cfg else nq);
          total_req_size = (nquantas * hdr_size cfg) mod INT_MOD
      in if (pool_free_pos s + total_req_size) mod INT_MOD \<le> POOL_SIZE cfg
         then (let h = pool cfg + pool_free_pos s;
                   s1 = s\<lparr>h_size := (h_size s)(h := nquantas)\<rparr>
               in case memmgr_free cfg s1 (h + hdr_size cfg) of
                    None \<Rightarrow> None
                  | Some s2 \<Rightarrow>
                      Some (s2\<lparr>pool_free_pos :=
                                 (pool_free_pos s2 + total_req_size) mod INT_MOD\<rparr>,
                            freep s2))
         else Some (s, 0))"

subsection \<open>memmgr\_alloc\<close>

definition quantas :: "config \<Rightarrow> nat \<Rightarrow> nat" where
  "quantas cfg nbytes =
     (((nbytes + hdr_size cfg - 1) mod INT_MOD) div hdr_size cfg + 1) mod INT_MOD"

text \<open>
  The branch of the loop body taken when the block at \<open>p\<close> is big enough: an exact
  fit is unlinked, a bigger block is split and its tail handed out.  The result pairs the
  new state with the returned user pointer.
\<close>

definition take_block :: "config \<Rightarrow> nat \<Rightarrow> state \<Rightarrow> nat \<Rightarrow> nat \<Rightarrow> state \<times> nat" where
  "take_block cfg nquantas s prevp p =
     (if h_size s p = nquantas
      then (s\<lparr>h_next := (h_next s)(prevp := h_next s p), freep := prevp\<rparr>,
            p + hdr_size cfg)
      else (let rest = h_size s p - nquantas;
                p' = p + rest * hdr_size cfg
            in (s\<lparr>h_size := (h_size s)(p := rest, p' := nquantas), freep := prevp\<rparr>,
                p' + hdr_size cfg)))"

text \<open>
  The \<open>for\<close> loop of \<open>memmgr_alloc\<close>, entered with \<open>prevp\<close> and \<open>p\<close>.  The
  result pairs the new state with the returned user pointer (0 for failure).
\<close>

partial_function (option) alloc_loop ::
  "config \<Rightarrow> nat \<Rightarrow> state \<Rightarrow> nat \<Rightarrow> nat \<Rightarrow> (state \<times> nat) option" where
  "alloc_loop cfg nquantas s prevp p =
     (if p = 0 then None
      else if h_size s p \<ge> nquantas then Some (take_block cfg nquantas s prevp p)
      else if p = freep s then
        (case get_mem_from_pool cfg s nquantas of
           None \<Rightarrow> None
         | Some (s', p') \<Rightarrow>
             if p' = 0 then Some (s', 0)
             else alloc_loop cfg nquantas s' p' (h_next s' p'))
      else alloc_loop cfg nquantas s p (h_next s p))"

definition memmgr_alloc :: "config \<Rightarrow> state \<Rightarrow> nat \<Rightarrow> (state \<times> nat) option" where
  "memmgr_alloc cfg s nbytes =
     (let nquantas = quantas cfg nbytes;
          s1 = (if freep s = 0
                then s\<lparr>h_next := (h_next s)(base cfg := base cfg),
                       h_size := (h_size s)(base cfg := 0),
                       freep := base cfg\<rparr>
                else s);
          prevp = freep s1
      in alloc_loop cfg nquantas s1 prevp (h_next s1 prevp))"

subsection \<open>memmgr\_realloc and memmgr\_calloc\<close>

text \<open>
  The two library calls.  The only object whose bytes the model holds is the pool array,
  and the C standard leaves \<open>memcpy\<close> and \<open>memset\<close> undefined when a range
  leaves the object it points into, and \<open>memcpy\<close> also when the two ranges overlap.
  Such a call has no result here, like a call that does not return: \<open>in_pool cfg a n\<close>
  says that the \<open>n\<close> bytes from address \<open>a\<close> lie inside the pool array.
\<close>

definition in_pool :: "config \<Rightarrow> nat \<Rightarrow> nat \<Rightarrow> bool" where
  "in_pool cfg a n \<longleftrightarrow> pool cfg \<le> a \<and> a + n \<le> pool cfg + POOL_SIZE cfg"

definition memcpy :: "config \<Rightarrow> state \<Rightarrow> nat \<Rightarrow> nat \<Rightarrow> nat \<Rightarrow> state option" where
  "memcpy cfg s dst src n =
     (if in_pool cfg dst n \<and> in_pool cfg src n \<and> (dst + n \<le> src \<or> src + n \<le> dst)
      then Some (s\<lparr>bytes := (\<lambda>a. if dst \<le> a \<and> a < dst + n
                                   then bytes s (src + (a - dst)) else bytes s a)\<rparr>)
      else None)"

definition memset :: "config \<Rightarrow> state \<Rightarrow> nat \<Rightarrow> 8 word \<Rightarrow> nat \<Rightarrow> state option" where
  "memset cfg s dst c n =
     (if in_pool cfg dst n
      then Some (s\<lparr>bytes := (\<lambda>a. if dst \<le> a \<and> a < dst + n then c else bytes s a)\<rparr>)
      else None)"

definition memmgr_realloc ::
  "config \<Rightarrow> state \<Rightarrow> nat \<Rightarrow> nat \<Rightarrow> (state \<times> nat) option" where
  "memmgr_realloc cfg s ap nbytes =
     (if ap = 0 then memmgr_alloc cfg s nbytes
      else if nbytes = 0 then
        (case memmgr_free cfg s ap of None \<Rightarrow> None | Some s' \<Rightarrow> Some (s', 0))
      else (let block = ap - hdr_size cfg;
                expected = quantas cfg nbytes
            in if expected \<le> h_size s block then Some (s, ap)
               else (case memmgr_alloc cfg s nbytes of
                       None \<Rightarrow> None
                     | Some (s1, ptrNew) \<Rightarrow>
                         (let originalLength =
                                (((h_size s1 block + INT_MOD - 1) mod INT_MOD)
                                   * hdr_size cfg) mod INT_MOD
                          in if ptrNew \<noteq> 0
                             then (case memcpy cfg s1 ptrNew ap originalLength of
                                     None \<Rightarrow> None
                                   | Some s2 \<Rightarrow>
                                       (case memmgr_free cfg s2 ap of
                                          None \<Rightarrow> None
                                        | Some s3 \<Rightarrow> Some (s3, ptrNew)))
                             else Some (s1, ptrNew)))))"

definition memmgr_calloc ::
  "config \<Rightarrow> state \<Rightarrow> nat \<Rightarrow> nat \<Rightarrow> (state \<times> nat) option" where
  "memmgr_calloc cfg s num nbytes =
     (let n = (num * nbytes) mod INT_MOD
      in case memmgr_alloc cfg s n of
           None \<Rightarrow> None
         | Some (s1, p) \<Rightarrow>
             if p \<noteq> 0
             then (case memset cfg s1 p 0 n of
                     None \<Rightarrow> None
                   | Some s2 \<Rightarrow> Some (s2, p))
             else Some (s1, p))"

section \<open>Specification vocabulary\<close>

subsection \<open>Configurations\<close>

text \<open>
  What is assumed of the build: a header of at least two bytes, both static objects at
  non-null addresses inside the 64-bit address space, the sentinel outside the pool and
  not directly behind it, and a pool size that the integer type can hold together with
  two headers and with a minimal carve.
\<close>

definition cfg_ok :: "config \<Rightarrow> bool" where
  "cfg_ok cfg \<longleftrightarrow>
     2 \<le> hdr_size cfg \<and> 0 < pool cfg \<and> 0 < base cfg \<and>
     (base cfg + hdr_size cfg \<le> pool cfg \<or> pool cfg + POOL_SIZE cfg < base cfg) \<and>
     base cfg < INT_MOD \<and>
     2 * hdr_size cfg + POOL_SIZE cfg \<le> INT_MOD \<and>
     MIN_POOL_ALLOC_QUANTAS cfg * hdr_size cfg + POOL_SIZE cfg < INT_MOD"

text \<open>
  A request whose size arithmetic cannot wrap around: the byte count, two headers and
  the pool size fit the integer type together.
\<close>

definition req_ok :: "config \<Rightarrow> nat \<Rightarrow> bool" where
  "req_ok cfg nbytes \<longleftrightarrow> nbytes + 2 * hdr_size cfg + POOL_SIZE cfg \<le> INT_MOD"

subsection \<open>The free list and the allocator invariants\<close>

text \<open>\<open>chain nx p xs q\<close>: following \<open>nx\<close> from \<open>p\<close> visits exactly \<open>xs\<close> and arrives at \<open>q\<close>.\<close>

fun chain :: "(nat \<Rightarrow> nat) \<Rightarrow> nat \<Rightarrow> nat list \<Rightarrow> nat \<Rightarrow> bool" where
  "chain nx p [] q \<longleftrightarrow> p = q"
| "chain nx p (x # xs) q \<longleftrightarrow> p = x \<and> chain nx (nx x) xs q"

text \<open>The address just behind the block whose header is at \<open>a\<close>.\<close>

definition blk_end :: "config \<Rightarrow> state \<Rightarrow> nat \<Rightarrow> nat" where
  "blk_end cfg s a = a + h_size s a * hdr_size cfg"

text \<open>The blocks the free list holds: what is reached from \<open>freep\<close> along \<open>next\<close>.\<close>

inductive_set free_nodes :: "state \<Rightarrow> nat set" for s :: state where
  fn_start: "freep s \<noteq> 0 \<Longrightarrow> freep s \<in> free_nodes s"
| fn_step: "a \<in> free_nodes s \<Longrightarrow> h_next s a \<in> free_nodes s"

text \<open>Coalescing completeness: no block of the free list ends where another one starts.\<close>

definition no_adjacent :: "config \<Rightarrow> state \<Rightarrow> bool" where
  "no_adjacent cfg s \<longleftrightarrow>
     (\<forall>a \<in> free_nodes s. \<forall>b \<in> free_nodes s. blk_end cfg s a = b \<longrightarrow> a = b)"

text \<open>
  The shape of the free list and of the blocks, for a sentinel at \<open>bs\<close> and the carved
  region from \<open>lo\<close> to \<open>lim\<close>, over the link function \<open>nx\<close> and the
  block ends \<open>en\<close>: the free list is the ring \<open>bs, fs, bs\<close>; the free blocks
  \<open>fs\<close> are sorted by address with a gap behind each of them; every free block
  and every live block (header addresses \<open>ls\<close>) is non-empty and inside the region; a
  live block overlaps neither a free block nor another live block.
\<close>

definition ring ::
  "nat \<Rightarrow> nat \<Rightarrow> nat \<Rightarrow> (nat \<Rightarrow> nat) \<Rightarrow> (nat \<Rightarrow> nat) \<Rightarrow> nat list \<Rightarrow> nat set \<Rightarrow> bool" where
  "ring bs lo lim nx en fs ls \<longleftrightarrow>
     chain nx bs (bs # fs) bs \<and>
     sorted_wrt (\<lambda>x y. en x < y) fs \<and>
     (\<forall>a \<in> set fs \<union> ls. lo \<le> a \<and> a < en a \<and> en a \<le> lim) \<and>
     (\<forall>l \<in> ls. \<forall>f \<in> set fs. en l \<le> f \<or> en f \<le> l) \<and>
     (\<forall>l \<in> ls. \<forall>m \<in> ls. l \<noteq> m \<longrightarrow> en l \<le> m \<or> en m \<le> l)"

text \<open>
  The allocator invariants between two public calls, for the free blocks \<open>fs\<close> (in
  list order behind the sentinel) and the live blocks \<open>ls\<close>, both given by their header
  addresses; the user pointer of the block at \<open>l\<close> is \<open>l + hdr_size cfg\<close>.  The pool
  cursor is in bounds and a multiple of the header size; before the first allocation
  there are no blocks at all; afterwards \<open>freep\<close> is on the free list, the sentinel
  has size 0, and list and blocks have the shape \<open>ring\<close> within the carved part of the
  pool.
\<close>

definition valid :: "config \<Rightarrow> state \<Rightarrow> nat list \<Rightarrow> nat set \<Rightarrow> bool" where
  "valid cfg s fs ls \<longleftrightarrow>
     pool_free_pos s \<le> POOL_SIZE cfg \<and> hdr_size cfg dvd pool_free_pos s \<and>
     (if freep s = 0 then fs = [] \<and> ls = {}
      else freep s \<in> set (base cfg # fs) \<and> h_size s (base cfg) = 0 \<and>
           ring (base cfg) (pool cfg) (pool cfg + pool_free_pos s)
             (h_next s) (blk_end cfg s) fs ls)"

text \<open>
  The exit test of the search loop of \<open>memmgr_free\<close>, at a node \<open>p\<close> with successor
  \<open>q\<close>.
\<close>

definition hit :: "nat \<Rightarrow> nat \<Rightarrow> nat \<Rightarrow> bool" where
  "hit b p q \<longleftrightarrow> (b > p \<and> b < q) \<or> (p \<ge> q \<and> (b > p \<or> b < q))"

subsection \<open>Histories of public calls\<close>

text \<open>
  One public call other than \<open>init\<close>, from the state \<open>s\<close> with live blocks \<open>ls\<close>
  to the state \<open>s'\<close> with live blocks \<open>ls'\<close>: the call returns, \<open>free\<close> and
  \<open>realloc\<close> are given null or the user pointer of a live block, and the requested
  size satisfies \<open>req_ok\<close>.  Between two calls the caller may write to the payload
  bytes.
\<close>

inductive step :: "config \<Rightarrow> state \<times> nat set \<Rightarrow> state \<times> nat set \<Rightarrow> bool" for cfg :: config where
  s_write: "step cfg (s, ls) (s\<lparr>bytes := f\<rparr>, ls)"
| s_alloc: "req_ok cfg n \<Longrightarrow> memmgr_alloc cfg s n = Some (s', p) \<Longrightarrow>
            step cfg (s, ls) (s', if p = 0 then ls else insert (p - hdr_size cfg) ls)"
| s_free: "l \<in> ls \<Longrightarrow> memmgr_free cfg s (l + hdr_size cfg) = Some s' \<Longrightarrow>
           step cfg (s, ls) (s', ls - {l})"
| s_free_null: "memmgr_free cfg s 0 = Some s' \<Longrightarrow> step cfg (s, ls) (s', ls)"
| s_realloc: "l \<in> ls \<Longrightarrow> req_ok cfg n \<Longrightarrow>
              memmgr_realloc cfg s (l + hdr_size cfg) n = Some (s', q) \<Longrightarrow>
              step cfg (s, ls) (s', if n = 0 then ls - {l}
                                     else if q = 0 then ls
                                     else insert (q - hdr_size cfg) (ls - {l}))"
| s_realloc_null: "req_ok cfg n \<Longrightarrow> memmgr_realloc cfg s 0 n = Some (s', q) \<Longrightarrow>
                   step cfg (s, ls) (s', if q = 0 then ls else insert (q - hdr_size cfg) ls)"
| s_calloc: "req_ok cfg (num * nb) \<Longrightarrow> memmgr_calloc cfg s num nb = Some (s', p) \<Longrightarrow>
             step cfg (s, ls) (s', if p = 0 then ls else insert (p - hdr_size cfg) ls)"

text \<open>
  \<open>reach cfg s ls\<close>: the state \<open>s\<close> with live blocks \<open>ls\<close> is reached from an
  initialisation by such calls.  A later \<open>init\<close> starts a new history.
\<close>

inductive reach :: "config \<Rightarrow> state \<Rightarrow> nat set \<Rightarrow> bool" for cfg :: config where
  r_init: "reach cfg (memmgr_init cfg s) {}"
| r_step: "reach cfg s ls \<Longrightarrow> step cfg (s, ls) (s', ls') \<Longrightarrow> reach cfg s' ls'"

text \<open>
  Scenarios.  A scenario is a list of public calls; \<open>Free i\<close> and \<open>Realloc i n\<close> are
  applied to the pointer that the \<open>i\<close>-th pointer-returning call of the scenario
  returned.  \<open>run\<close> threads the state through the calls and collects the returned
  pointers; it yields \<open>None\<close> when a call does not return or names a pointer that
  does not exist.
\<close>

datatype call = Init | Alloc nat | Free nat | Realloc nat nat | Calloc nat nat

fun run :: "config \<Rightarrow> call list \<Rightarrow> state \<times> nat list \<Rightarrow> (state \<times> nat list) option" where
  "run cfg [] st = Some st"
| "run cfg (Init # cs) (s, ps) = run cfg cs (memmgr_init cfg s, ps)"
| "run cfg (Alloc n # cs) (s, ps) =
     (case memmgr_alloc cfg s n of
        None \<Rightarrow> None
      | Some (s', p) \<Rightarrow> run cfg cs (s', ps @ [p]))"
| "run cfg (Free i # cs) (s, ps) =
     (if i < length ps
      then (case memmgr_free cfg s (ps ! i) of
              None \<Rightarrow> None
            | Some s' \<Rightarrow> run cfg cs (s', ps))
      else None)"
| "run cfg (Realloc i n # cs) (s, ps) =
     (if i < length ps
      then (case memmgr_realloc cfg s (ps ! i) n of
              None \<Rightarrow> None
            | Some (s', p) \<Rightarrow> run cfg cs (s', ps @ [p]))
      else None)"
| "run cfg (Calloc k n # cs) (s, ps) =
     (case memmgr_calloc cfg s k n of
        None \<Rightarrow> None
      | Some (s', p) \<Rightarrow> run cfg cs (s', ps @ [p]))"

text \<open>The outcome of a scenario: it returns, and the final state satisfies \<open>P\<close>.\<close>

definition ends_with :: "(state \<Rightarrow> bool) \<Rightarrow> (state \<times> nat list) option \<Rightarrow> bool" where
  "ends_with P r = (case r of None \<Rightarrow> False | Some (s, ps) \<Rightarrow> P s)"

text \<open>The outcome of a scenario: it returns exactly the pointers \<open>qs\<close>.\<close>

definition returns :: "nat list \<Rightarrow> (state \<times> nat list) option \<Rightarrow> bool" where
  "returns qs r = (case r of None \<Rightarrow> False | Some (s, ps) \<Rightarrow> ps = qs)"

text \<open>Two different blocks of the free list, the second one right behind the first.\<close>

definition has_adjacent :: "config \<Rightarrow> state \<Rightarrow> bool" where
  "has_adjacent cfg s \<longleftrightarrow>
     (\<exists>a \<in> free_nodes s. \<exists>b \<in> free_nodes s. blk_end cfg s a = b \<and> a \<noteq> b)"

text \<open>Observations on a state: the pool cursor, and the size field of a header.\<close>

definition pos_is :: "nat \<Rightarrow> state \<Rightarrow> bool" where
  "pos_is k s \<longleftrightarrow> pool_free_pos s = k"

definition size_is :: "nat \<Rightarrow> nat \<Rightarrow> state \<Rightarrow> bool" where
  "size_is a k s \<longleftrightarrow> h_size s a = k"

subsection \<open>A concrete build for the examples\<close>

text \<open>Headers of 16 bytes, a pool of 64 headers at address 4096, the sentinel at 256.\<close>

definition cfg0 :: config where
  "cfg0 = \<lparr>hdr_size = 16, POOL_SIZE = 1024, MIN_POOL_ALLOC_QUANTAS = 4,
           pool = 4096, base = 256\<rparr>"

text \<open>The same build with a pool of only four headers.\<close>

definition cfg1 :: config where
  "cfg1 = \<lparr>hdr_size = 16, POOL_SIZE = 64, MIN_POOL_ALLOC_QUANTAS = 4,
           pool = 4096, base = 256\<rparr>"

text \<open>The first build with the sentinel one header behind the end of the pool.\<close>

definition cfg2 :: config where
  "cfg2 = \<lparr>hdr_size = 16, POOL_SIZE = 1024, MIN_POOL_ALLOC_QUANTAS = 4,
           pool = 4096, base = 5136\<rparr>"

definition mem0 :: state where
  "mem0 = \<lparr>h_next = (\<lambda>_. 0), h_size = (\<lambda>_. 0), freep = 0, pool_free_pos = 0,
           bytes = (\<lambda>_. 0)\<rparr>"

section \<open>Unfolding the loops\<close>

lemma free_scan_null: "free_scan s block 0 = None"
  by (subst free_scan.simps) simp

lemma free_scan_hit1:
  "p \<noteq> 0 \<Longrightarrow> block > p \<and> block < h_next s p \<Longrightarrow> free_scan s block p = Some p"
  by (subst free_scan.simps) simp

lemma free_scan_hit2:
  "p \<noteq> 0 \<Longrightarrow> p \<ge> h_next s p \<and> (block > p \<or> block < h_next s p) \<Longrightarrow>
   free_scan s block p = Some p"
  by (subst free_scan.simps) simp

lemma free_scan_step:
  "p \<noteq> 0 \<Longrightarrow> \<not> (block > p \<and> block < h_next s p) \<Longrightarrow>
   \<not> (p \<ge> h_next s p \<and> (block > p \<or> block < h_next s p)) \<Longrightarrow>
   free_scan s block p = free_scan s block (h_next s p)"
  by (subst free_scan.simps) auto

lemma alloc_loop_null: "alloc_loop cfg nq s prevp 0 = None"
  by (subst alloc_loop.simps) simp

lemma alloc_loop_fit:
  "p \<noteq> 0 \<Longrightarrow> nq \<le> h_size s p \<Longrightarrow>
   alloc_loop cfg nq s prevp p = Some (take_block cfg nq s prevp p)"
  by (subst alloc_loop.simps) simp

lemma alloc_loop_carve:
  "p \<noteq> 0 \<Longrightarrow> h_size s p < nq \<Longrightarrow> p = freep s \<Longrightarrow>
   alloc_loop cfg nq s prevp p =
     (case get_mem_from_pool cfg s nq of
        None \<Rightarrow> None
      | Some (s', p') \<Rightarrow>
          if p' = 0 then Some (s', 0) else alloc_loop cfg nq s' p' (h_next s' p'))"
  by (subst alloc_loop.simps) simp

lemma alloc_loop_step:
  "p \<noteq> 0 \<Longrightarrow> h_size s p < nq \<Longrightarrow> p \<noteq> freep s \<Longrightarrow>
   alloc_loop cfg nq s prevp p = alloc_loop cfg nq s p (h_next s p)"
  by (subst alloc_loop.simps) simp

lemmas run_simps =
  free_scan_null free_scan_hit1 free_scan_hit2 free_scan_step
  alloc_loop_null alloc_loop_fit alloc_loop_carve alloc_loop_step take_block_def
  memmgr_alloc_def memmgr_free_def get_mem_from_pool_def free_link_def quantas_def
  memmgr_realloc_def memmgr_calloc_def memcpy_def memset_def in_pool_def
  INT_MOD_def Let_def memmgr_init_def

section \<open>Paths along the next field\<close>

lemma chain_append: "chain nx p (xs @ ys) q \<longleftrightarrow> (\<exists>m. chain nx p xs m \<and> chain nx m ys q)"
  by (induction xs arbitrary: p) auto

lemma chain_hd: "chain nx p xs q \<Longrightarrow> p = hd (xs @ [q])"
  by (cases xs) auto

lemma chain_snoc: "chain nx p (xs @ [x]) q \<longleftrightarrow> chain nx p xs x \<and> nx x = q"
  by (auto simp: chain_append)

lemma chain_upd: "u \<notin> set xs \<Longrightarrow> chain (nx(u := v)) p xs q = chain nx p xs q"
  by (induction xs arbitrary: p) auto

lemma scan_walk:
  assumes "chain (h_next s) p (zs @ [t]) q" and "0 \<notin> set (zs @ [t])"
    and "successively (\<lambda>x y. \<not> hit b x y) (zs @ [t])" and "hit b t q"
  shows "free_scan s b p = Some t"
  using assms
proof (induction zs arbitrary: p)
  case Nil
  then have "p = t" "h_next s t = q" "t \<noteq> 0" by auto
  with Nil(4) show ?case
    unfolding hit_def by (auto intro: free_scan_hit1 free_scan_hit2)
next
  case (Cons z zs)
  from Cons.prems(1) have pz: "p = z" and ch: "chain (h_next s) (h_next s z) (zs @ [t]) q"
    by auto
  from ch have nz: "h_next s z = hd (zs @ [t])" using chain_hd [OF ch] by (cases zs) auto
  from Cons.prems(3) have nh: "\<not> hit b z (hd (zs @ [t]))" and su: "successively (\<lambda>x y. \<not> hit b x y) (zs @ [t])"
    by (auto simp: successively_Cons)
  from Cons.prems(2) have z0: "z \<noteq> 0" and r0: "0 \<notin> set (zs @ [t])" by auto
  have "free_scan s b z = free_scan s b (h_next s z)"
    using nh z0 nz unfolding hit_def by (intro free_scan_step) auto
  also have "\<dots> = Some t" by (rule Cons.IH [OF ch r0 su Cons.prems(4)])
  finally show ?case using pz by simp
qed

lemma nohit_below:
  assumes "sorted_wrt (<) zs" and "\<forall>z \<in> set zs. z < b"
  shows "successively (\<lambda>x y. \<not> hit b x y) zs"
proof -
  have "sorted_wrt (\<lambda>x y. \<not> hit b x y) zs"
    using assms(1)
  proof (rule sorted_wrt_mono_rel [rotated])
    fix x y assume "x \<in> set zs" "y \<in> set zs" "x < y"
    with assms(2) show "\<not> hit b x y" by (auto simp: hit_def)
  qed
  then show ?thesis by (rule successively_if_sorted_wrt)
qed

lemma nohit_above:
  assumes "sorted_wrt (<) zs" and "\<forall>z \<in> set zs. b < z"
  shows "successively (\<lambda>x y. \<not> hit b x y) zs"
proof -
  have "sorted_wrt (\<lambda>x y. \<not> hit b x y) zs"
    using assms(1)
  proof (rule sorted_wrt_mono_rel [rotated])
    fix x y assume "x \<in> set zs" "y \<in> set zs" "x < y"
    with assms(2) show "\<not> hit b x y" by (auto simp: hit_def)
  qed
  then show ?thesis by (rule successively_if_sorted_wrt)
qed

text \<open>The ring's nodes behind the sentinel that lie below the block are never hit.\<close>

lemma nohit_base_below:
  assumes "sorted_wrt (<) xs" and "\<forall>x \<in> set xs. x < b \<and> lo \<le> x \<and> x \<le> hi"
    and "bs < lo \<or> hi < bs" and "lo \<le> b" "b \<le> hi"
  shows "successively (\<lambda>x y. \<not> hit b x y) (bs # xs)"
proof (cases xs)
  case Nil then show ?thesis by simp
next
  case (Cons x xs')
  have "\<not> hit b bs x" using assms(2-5) Cons by (auto simp: hit_def)
  moreover have "successively (\<lambda>x y. \<not> hit b x y) xs"
    using nohit_below [of xs b] assms by auto
  ultimately show ?thesis using Cons by (simp add: successively_Cons)
qed

lemma nohit_wrap:
  assumes "sorted_wrt (<) xs" and "\<forall>x \<in> set xs. x < b \<and> lo \<le> x \<and> x \<le> hi"
    and "sorted_wrt (<) ys" and "\<forall>y \<in> set ys. b < y \<and> lo \<le> y \<and> y \<le> hi"
    and "bs < lo \<or> hi < bs" and "lo \<le> b" "b \<le> hi"
  shows "successively (\<lambda>x y. \<not> hit b x y) (ys @ bs # xs)"
proof -
  have 1: "successively (\<lambda>x y. \<not> hit b x y) ys" using nohit_above [of ys b] assms by auto
  have 2: "successively (\<lambda>x y. \<not> hit b x y) (bs # xs)"
    by (rule nohit_base_below [OF assms(1,2,5,6,7)])
  have 3: "ys \<noteq> [] \<Longrightarrow> \<not> hit b (last ys) bs"
  proof -
    assume "ys \<noteq> []"
    then have "last ys \<in> set ys" by simp
    with assms(4) have "b < last ys" "lo \<le> last ys" "last ys \<le> hi" by auto
    with assms(5-7) show ?thesis by (auto simp: hit_def)
  qed
  show ?thesis using 1 2 3 by (auto simp: successively_append_iff)
qed

lemma hit_target:
  assumes "\<forall>x \<in> set xs. x < b \<and> lo \<le> x \<and> x \<le> hi"
    and "\<forall>y \<in> set ys. b < y \<and> lo \<le> y \<and> y \<le> hi"
    and "bs < lo \<or> hi < bs" and "lo \<le> b" "b \<le> hi"
  shows "hit b (last (bs # xs)) (hd (ys @ [bs]))"
proof -
  define T where "T = last (bs # xs)"
  define N where "N = hd (ys @ [bs])"
  have "T = bs \<or> T \<in> set xs" unfolding T_def by (cases xs) auto
  with assms(1) have t: "T = bs \<or> (T < b \<and> lo \<le> T \<and> T \<le> hi)" by auto
  have "N = bs \<or> N \<in> set ys" unfolding N_def by (cases ys) auto
  with assms(2) have h: "N = bs \<or> (b < N \<and> lo \<le> N \<and> N \<le> hi)" by auto
  from t h assms(3-5) have "hit b T N" unfolding hit_def by arith
  then show ?thesis by (simp add: T_def N_def)
qed


lemma chain_last_next:
  assumes "chain nx p (xs @ ys) q" and "xs \<noteq> []"
  shows "nx (last xs) = hd (ys @ [q])"
proof -
  from assms obtain m where m: "chain nx p xs m" "chain nx m ys q" by (auto simp: chain_append)
  from m(1) assms(2) have "nx (last xs) = m"
    by (metis append_butlast_last_id chain_snoc)
  with chain_hd [OF m(2)] show ?thesis by simp
qed

lemma free_scan_target:
  assumes ch: "chain (h_next s) bs (bs # xs @ ys) bs"
    and sx: "sorted_wrt (<) (xs @ ys)"
    and bx: "\<forall>x \<in> set xs. x < b \<and> lo \<le> x \<and> x \<le> hi"
    and "by": "\<forall>y \<in> set ys. b < y \<and> lo \<le> y \<and> y \<le> hi"
    and out: "bs < lo \<or> hi < bs" and lob: "lo \<le> b" and bhi: "b \<le> hi"
    and nz: "0 < bs" "0 < lo"
    and p: "p \<in> set (bs # xs @ ys)"
  shows "free_scan s b p = Some (last (bs # xs))"
proof -
  let ?nh = "successively (\<lambda>x y. \<not> hit b x y)"
  let ?t = "last (bs # xs)"
  let ?m = "hd (ys @ [bs])"
  from sx have sxs: "sorted_wrt (<) xs" and sys: "sorted_wrt (<) ys"
    by (auto simp: sorted_wrt_append)
  from ch have "chain (h_next s) bs ((bs # xs) @ ys) bs" by simp
  then obtain m where m1: "chain (h_next s) bs (bs # xs) m" and m2: "chain (h_next s) m ys bs"
    unfolding chain_append by blast
  have mm: "m = ?m" using chain_hd [OF m2] .
  have nh1: "?nh (bs # xs)" by (rule nohit_base_below [OF sxs bx out lob bhi])
  have nh2: "?nh (ys @ bs # xs)" by (rule nohit_wrap [OF sxs bx sys "by" out lob bhi])
  have ht: "hit b ?t m" unfolding mm by (rule hit_target [OF bx "by" out lob bhi])
  have z1: "0 \<notin> set (bs # xs)" using nz bx by auto
  have z2: "0 \<notin> set ys" using nz "by" by auto
  from p consider (lo) "p \<in> set (bs # xs)" | (hi) "p \<in> set ys" by auto
  then show ?thesis
  proof cases
    case lo
    then obtain A B where ab: "bs # xs = A @ p # B" by (meson split_list)
    from m1 have "chain (h_next s) bs (A @ (p # B)) m" using ab by simp
    then have c: "chain (h_next s) p (p # B) m" unfolding chain_append by auto
    have l: "last (p # B) = ?t" by (metis ab last_appendR list.distinct(1))
    have w: "p # B = butlast (p # B) @ [?t]" using l by (metis append_butlast_last_id list.distinct(1))
    have n: "?nh (p # B)" using nh1 unfolding ab by (auto simp: successively_append_iff)
    have z: "0 \<notin> set (p # B)" using z1 unfolding ab by auto
    show ?thesis
      by (rule scan_walk [where zs = "butlast (p # B)" and q = m])
         (metis w c n z ht)+
  next
    case hi
    then obtain C D where cd: "ys = C @ p # D" by (meson split_list)
    from m2 have "chain (h_next s) m (C @ (p # D)) bs" using cd by simp
    then have c1: "chain (h_next s) p (p # D) bs" unfolding chain_append by auto
    have c: "chain (h_next s) p ((p # D) @ (bs # xs)) m"
      unfolding chain_append using c1 m1 by blast
    have l: "last ((p # D) @ (bs # xs)) = ?t" by simp
    have w: "(p # D) @ (bs # xs) = butlast ((p # D) @ (bs # xs)) @ [?t]"
      using l by (metis append_butlast_last_id append_is_Nil_conv list.distinct(1))
    have "?nh (C @ ((p # D) @ bs # xs))" using nh2 unfolding cd by simp
    then have n: "?nh ((p # D) @ bs # xs)" unfolding successively_append_iff [of _ C] by blast
    have z: "0 \<notin> set ((p # D) @ bs # xs)" using z1 z2 unfolding cd by auto
    show ?thesis
      by (rule scan_walk [where zs = "butlast ((p # D) @ (bs # xs))" and q = m])
         (metis w c n z ht)+
  qed
qed

section \<open>The cases of the linking step of memmgr\_free\<close>

lemma split_sorted:
  assumes "sorted_wrt (<) (fs::nat list)" and "b \<notin> set fs"
  shows "\<exists>xs ys. fs = xs @ ys \<and> (\<forall>x \<in> set xs. x < b) \<and> (\<forall>y \<in> set ys. b < y)"
  using assms
proof (induction fs)
  case Nil then show ?case by simp
next
  case (Cons f fs)
  then obtain xs ys where s: "fs = xs @ ys" "\<forall>x \<in> set xs. x < b" "\<forall>y \<in> set ys. b < y"
    by auto
  show ?case
  proof (cases "f < b")
    case True
    then have "f # fs = (f # xs) @ ys \<and> (\<forall>x \<in> set (f # xs). x < b) \<and> (\<forall>y \<in> set ys. b < y)"
      using s by auto
    then show ?thesis by blast
  next
    case False
    with Cons.prems have "b < f" by auto
    with Cons.prems(1) have "\<forall>y \<in> set (f # fs). b < y" by auto
    then have "f # fs = [] @ (f # fs) \<and> (\<forall>x \<in> set []. x < b) \<and> (\<forall>y \<in> set (f # fs). b < y)"
      by simp
    then show ?thesis by blast
  qed
qed

lemma free_link_nn:
  assumes "blk_end cfg s b \<noteq> h_next s p" and "blk_end cfg s p \<noteq> b" and "p \<noteq> b"
  shows "free_link cfg s b p = s\<lparr>h_next := (h_next s)(b := h_next s p, p := b), freep := p\<rparr>"
  using assms by (simp add: free_link_def blk_end_def Let_def)

lemma free_link_un:
  assumes "blk_end cfg s b = h_next s p" and "blk_end cfg s p \<noteq> b" and "p \<noteq> b"
  shows "free_link cfg s b p =
    s\<lparr>h_size := (h_size s)(b := (h_size s b + h_size s (h_next s p)) mod INT_MOD),
      h_next := (h_next s)(b := h_next s (h_next s p), p := b), freep := p\<rparr>"
  using assms by (simp add: free_link_def blk_end_def Let_def)

lemma free_link_nl:
  assumes "blk_end cfg s b \<noteq> h_next s p" and "blk_end cfg s p = b" and "p \<noteq> b"
  shows "free_link cfg s b p =
    s\<lparr>h_size := (h_size s)(p := (h_size s p + h_size s b) mod INT_MOD),
      h_next := (h_next s)(b := h_next s p, p := h_next s p), freep := p\<rparr>"
  using assms by (simp add: free_link_def blk_end_def Let_def)

lemma free_link_ul:
  assumes "blk_end cfg s b = h_next s p" and "blk_end cfg s p = b" and "p \<noteq> b"
  shows "free_link cfg s b p =
    s\<lparr>h_size := (h_size s)(b := (h_size s b + h_size s (h_next s p)) mod INT_MOD,
                          p := (h_size s p + (h_size s b + h_size s (h_next s p)) mod INT_MOD) mod INT_MOD),
      h_next := (h_next s)(b := h_next s (h_next s p), p := h_next s (h_next s p)), freep := p\<rparr>"
  using assms by (simp add: free_link_def blk_end_def Let_def)

section \<open>The shape of the free list\<close>

lemma ringI:
  assumes "chain nx bs (bs # fs) bs" and "sorted_wrt (\<lambda>x y. en x < y) fs"
    and "\<And>a. a \<in> set fs \<Longrightarrow> lo \<le> a \<and> a < en a \<and> en a \<le> lim"
    and "\<And>a. a \<in> ls \<Longrightarrow> lo \<le> a \<and> a < en a \<and> en a \<le> lim"
    and "\<And>l f. l \<in> ls \<Longrightarrow> f \<in> set fs \<Longrightarrow> en l \<le> f \<or> en f \<le> l"
    and "\<And>l m. l \<in> ls \<Longrightarrow> m \<in> ls \<Longrightarrow> l \<noteq> m \<Longrightarrow> en l \<le> m \<or> en m \<le> l"
  shows "ring bs lo lim nx en fs ls"
  unfolding ring_def using assms by blast

lemma ring_chain: "ring bs lo lim nx en fs ls \<Longrightarrow> chain nx bs (bs # fs) bs"
  by (simp add: ring_def)

lemma ring_sorted_en: "ring bs lo lim nx en fs ls \<Longrightarrow> sorted_wrt (\<lambda>x y. en x < y) fs"
  by (simp add: ring_def)

lemma ring_free_blk: "ring bs lo lim nx en fs ls \<Longrightarrow> a \<in> set fs \<Longrightarrow> lo \<le> a \<and> a < en a \<and> en a \<le> lim"
  by (simp add: ring_def)

lemma ring_live_blk: "ring bs lo lim nx en fs ls \<Longrightarrow> a \<in> ls \<Longrightarrow> lo \<le> a \<and> a < en a \<and> en a \<le> lim"
  by (simp add: ring_def)

lemma ring_live_free: "ring bs lo lim nx en fs ls \<Longrightarrow> l \<in> ls \<Longrightarrow> f \<in> set fs \<Longrightarrow> en l \<le> f \<or> en f \<le> l"
  by (simp add: ring_def)

lemma ring_live_live: "ring bs lo lim nx en fs ls \<Longrightarrow> l \<in> ls \<Longrightarrow> m \<in> ls \<Longrightarrow> l \<noteq> m \<Longrightarrow> en l \<le> m \<or> en m \<le> l"
  by (simp add: ring_def)

lemma ring_sorted:
  assumes "ring bs lo lim nx en fs ls"
  shows "sorted_wrt (<) fs"
proof -
  have "sorted_wrt (\<lambda>x y. en x < y) fs" using assms by (rule ring_sorted_en)
  then show ?thesis
  proof (rule sorted_wrt_mono_rel [rotated])
    fix x y assume "x \<in> set fs" "y \<in> set fs" "en x < y"
    with ring_free_blk [OF assms, of x] show "x < y" by simp
  qed
qed

lemma ring_distinct: "ring bs lo lim nx en fs ls \<Longrightarrow> distinct fs"
  using ring_sorted strict_sorted_iff by blast

lemma ring_live_not_free:
  assumes "ring bs lo lim nx en fs ls" and "l \<in> ls"
  shows "l \<notin> set fs"
proof
  assume "l \<in> set fs"
  with ring_live_free [OF assms this] ring_live_blk [OF assms] show False by auto
qed

lemma ring_base_out:
  assumes "ring bs lo lim nx en fs ls" and "bs < lo \<or> lim < bs"
  shows "bs \<notin> set fs \<union> ls"
proof
  assume "bs \<in> set fs \<union> ls"
  then have "lo \<le> bs \<and> bs < en bs \<and> en bs \<le> lim"
    using ring_free_blk [OF assms(1), of bs] ring_live_blk [OF assms(1), of bs] by blast
  with assms(2) show False by auto
qed

lemma chain_mid:
  assumes "chain nx a (F @ p # pre @ ys1) q"
  shows "chain nx a F p \<and> chain nx (hd (ys1 @ [q])) ys1 q"
proof -
  from assms obtain m where m: "chain nx a F m" "chain nx m (p # pre @ ys1) q"
    unfolding chain_append by blast
  then have mp: "m = p" and "chain nx (nx p) (pre @ ys1) q" by auto
  then obtain k where k: "chain nx k ys1 q" unfolding chain_append by blast
  with chain_hd [OF k] m(1) mp show ?thesis by simp
qed

lemma sorted_wrt_last:
  assumes "sorted_wrt P (F @ [p])" and "x \<in> set F"
  shows "P x p"
  using assms by (auto simp: sorted_wrt_append)

text \<open>Linking the freed block, no merge with the lower neighbour.\<close>

lemma ring_link_keep:
  assumes r: "ring bs lo lim nx en (xs @ ys) (insert b ls)" and bl: "b \<notin> ls"
    and out: "bs < lo \<or> lim < bs"
    and xb: "\<forall>x \<in> set xs. x < b" and yb: "\<forall>y \<in> set ys. b < y"
    and ys: "ys = pre @ ys1"
    and e1: "b < e1" "e1 \<le> lim" "\<forall>y \<in> set ys1. e1 < y"
    and dl: "\<forall>l \<in> ls. en l \<le> b \<or> e1 \<le> l"
    and p: "p = last (bs # xs)"
    and nl: "p = bs \<or> en p \<noteq> b"
  shows "ring bs lo lim (nx(b := hd (ys1 @ [bs]), p := b)) (en(b := e1)) (xs @ b # ys1) ls"
proof -
  let ?N = "hd (ys1 @ [bs])"
  let ?nx = "nx(b := ?N, p := b)"
  let ?en = "en(b := e1)"
  define F where "F = butlast (bs # xs)"
  have Fp: "bs # xs = F @ [p]" unfolding F_def p by simp
  have bin: "b \<in> insert b ls" by simp
  have bb: "lo \<le> b \<and> b < en b \<and> en b \<le> lim" using ring_live_blk [OF r bin] .
  have bnfr: "b \<notin> set (xs @ ys)" using ring_live_not_free [OF r bin] .
  have bsn: "bs \<notin> set (xs @ ys)" and bnb: "b \<noteq> bs" using ring_base_out [OF r out] by auto
  have dist: "distinct (bs # xs @ ys)" using ring_distinct [OF r] bsn by simp
  then have "distinct ((bs # xs) @ ys)" by simp
  then have dF: "distinct ((F @ [p]) @ ys)" by (simp only: Fp)
  have pF: "p \<notin> set F" and pys: "p \<notin> set ys" using dF by auto
  have bF: "b \<notin> set F" using bnfr bnb Fp
    by (metis Un_iff append_Cons butlast.simps(2) in_set_butlastD list.set_intros(2) set_ConsD set_append F_def)
  have bys1: "b \<notin> set ys1" and pys1: "p \<notin> set ys1" using bnfr pys ys by auto
  have pnb: "p \<noteq> b" using bnfr bnb Fp by (metis Un_iff last_in_set list.distinct(1) p set_ConsD set_append)
  have "chain nx bs ((bs # xs) @ ys) bs" using ring_chain [OF r] by simp
  then have "chain nx bs ((F @ [p]) @ pre @ ys1) bs" by (simp only: Fp ys)
  then have "chain nx bs (F @ p # pre @ ys1) bs" by simp
  from chain_mid [OF this] have c1: "chain nx bs F p" and c2: "chain nx ?N ys1 bs" by auto
  have ch: "chain ?nx bs (bs # xs @ b # ys1) bs"
  proof -
    have "chain ?nx bs F p" using c1 pF bF by (simp add: chain_upd)
    moreover have "chain ?nx ?N ys1 bs" using c2 pys1 bys1 by (simp add: chain_upd)
    ultimately have "chain ?nx bs ((F @ [p]) @ b # ys1) bs"
      using pnb by (auto simp: chain_append)
    then have "chain ?nx bs ((bs # xs) @ b # ys1) bs" by (simp only: Fp)
    then show ?thesis by simp
  qed
  have s0: "sorted_wrt (\<lambda>x y. en x < y) (xs @ ys)" using ring_sorted_en [OF r] .
  have xlt: "en x < b" if "x \<in> set xs" for x
  proof -
    have xf: "x \<in> set (xs @ ys)" using that by simp
    have "x < b" using xb that by simp
    with ring_live_free [OF r bin xf] bb ring_free_blk [OF r xf] have le: "en x \<le> b" by auto
    show ?thesis
    proof (cases "x = p")
      case True with nl that bsn le show ?thesis by auto
    next
      case False
      from that have "xs \<noteq> []" by auto
      then have lp: "p = last xs" and pin: "p \<in> set xs" using p by auto
      then have "xs = butlast xs @ [p]" using \<open>xs \<noteq> []\<close> by simp
      moreover from this that False have "x \<in> set (butlast xs)"
        by (metis Un_iff empty_iff empty_set set_ConsD set_append)
      moreover have "sorted_wrt (\<lambda>x y. en x < y) xs" using s0 by (simp add: sorted_wrt_append)
      ultimately have "en x < p" using sorted_wrt_last [of "\<lambda>x y. en x < y" "butlast xs" p x] by simp
      with xb pin show ?thesis by auto
    qed
  qed
  have srt: "sorted_wrt (\<lambda>x y. ?en x < y) (xs @ b # ys1)"
  proof -
    have "sorted_wrt (\<lambda>x y. en x < y) xs" and "sorted_wrt (\<lambda>x y. en x < y) ys1"
      and "\<forall>x \<in> set xs. \<forall>y \<in> set ys1. en x < y"
      using s0 ys by (auto simp: sorted_wrt_append)
    moreover have "\<forall>x \<in> set xs. x \<noteq> b" and "\<forall>y \<in> set ys1. y \<noteq> b" using bnfr ys by auto
    ultimately have "sorted_wrt (\<lambda>x y. ?en x < y) xs" and "sorted_wrt (\<lambda>x y. ?en x < y) ys1"
      and "\<forall>x \<in> set xs. \<forall>y \<in> set ys1. ?en x < y"
      by (auto intro: sorted_wrt_mono_rel [rotated])
    moreover have "\<forall>x \<in> set xs. ?en x < b" using xlt bnfr by auto
    moreover have "\<forall>y \<in> set ys1. ?en b < y" using e1 by simp
    ultimately show ?thesis by (simp add: sorted_wrt_append)
  qed
  show ?thesis
  proof (rule ringI)
    show "chain ?nx bs (bs # xs @ b # ys1) bs" by (rule ch)
    show "sorted_wrt (\<lambda>x y. ?en x < y) (xs @ b # ys1)" by (rule srt)
  next
    fix a assume a: "a \<in> set (xs @ b # ys1)"
    show "lo \<le> a \<and> a < ?en a \<and> ?en a \<le> lim"
    proof (cases "a = b")
      case True then show ?thesis using bb e1 by simp
    next
      case False
      with a ys have "a \<in> set (xs @ ys)" by auto
      from ring_free_blk [OF r this] False show ?thesis by simp
    qed
  next
    fix a assume "a \<in> ls"
    then have "a \<in> insert b ls" "a \<noteq> b" using bl by auto
    with ring_live_blk [OF r this(1)] show "lo \<le> a \<and> a < ?en a \<and> ?en a \<le> lim" by simp
  next
    fix l f assume l: "l \<in> ls" and f: "f \<in> set (xs @ b # ys1)"
    have lb: "l \<noteq> b" "l \<in> insert b ls" using l bl by auto
    show "?en l \<le> f \<or> ?en f \<le> l"
    proof (cases "f = b")
      case True then show ?thesis using dl l lb by simp
    next
      case False
      with f ys have "f \<in> set (xs @ ys)" by auto
      from ring_live_free [OF r lb(2) this] False lb show ?thesis by simp
    qed
  next
    fix l m assume "l \<in> ls" "m \<in> ls" "l \<noteq> m"
    moreover from this bl have "l \<noteq> b" "m \<noteq> b" by auto
    ultimately show "?en l \<le> m \<or> ?en m \<le> l"
      using ring_live_live [OF r, of l m] by simp
  qed
qed

text \<open>Linking the freed block, merged into the lower neighbour.\<close>

lemma ring_link_merge:
  assumes r: "ring bs lo lim nx en (xs @ ys) (insert b ls)" and bl: "b \<notin> ls"
    and out: "bs < lo \<or> lim < bs"
    and xb: "\<forall>x \<in> set xs. x < b" and yb: "\<forall>y \<in> set ys. b < y"
    and ys: "ys = pre @ ys1"
    and e1: "b < e1" "e1 \<le> lim" "\<forall>y \<in> set ys1. e1 < y"
    and dl: "\<forall>l \<in> ls. en l \<le> b \<or> e1 \<le> l"
    and p: "p = last (bs # xs)"
    and lm: "p \<noteq> bs" "en p = b"
  shows "ring bs lo lim (nx(b := hd (ys1 @ [bs]), p := hd (ys1 @ [bs]))) (en(b := e1, p := e1))
           (xs @ ys1) ls"
proof -
  let ?N = "hd (ys1 @ [bs])"
  let ?nx = "nx(b := ?N, p := ?N)"
  let ?en = "en(b := e1, p := e1)"
  define F where "F = butlast (bs # xs)"
  have Fp: "bs # xs = F @ [p]" unfolding F_def p by simp
  have b_in: "b \<in> insert b ls" by simp
  have bb: "lo \<le> b \<and> b < en b \<and> en b \<le> lim" using ring_live_blk [OF r b_in] .
  have bnfr: "b \<notin> set (xs @ ys)" using ring_live_not_free [OF r b_in] .
  have bsn: "bs \<notin> set (xs @ ys)" and bnb: "b \<noteq> bs" using ring_base_out [OF r out] by auto
  have dist: "distinct (bs # xs @ ys)" using ring_distinct [OF r] bsn by simp
  then have "distinct ((bs # xs) @ ys)" by simp
  then have dF: "distinct ((F @ [p]) @ ys)" by (simp only: Fp)
  have pF: "p \<notin> set F" and pys: "p \<notin> set ys" using dF by auto
  have xne: "xs \<noteq> []" using p lm(1) by auto
  then have pl: "p = last xs" and pin: "p \<in> set xs" using p by auto
  have xsF: "xs = butlast xs @ [p]" using xne pl by simp
  have bF: "b \<notin> set F" using bnfr bnb Fp
    by (metis Un_iff append_Cons butlast.simps(2) in_set_butlastD list.set_intros(2) set_ConsD set_append F_def)
  have bys1: "b \<notin> set ys1" and pys1: "p \<notin> set ys1" using bnfr pys ys by auto
  have pnb: "p \<noteq> b" using pin bnfr by auto
  have pf: "p \<in> set (xs @ ys)" using pin by simp
  have pb: "lo \<le> p \<and> p < en p \<and> en p \<le> lim" using ring_free_blk [OF r pf] .
  have "chain nx bs ((bs # xs) @ ys) bs" using ring_chain [OF r] by simp
  then have "chain nx bs ((F @ [p]) @ pre @ ys1) bs" by (simp only: Fp ys)
  then have "chain nx bs (F @ p # pre @ ys1) bs" by simp
  from chain_mid [OF this] have c1: "chain nx bs F p" and c2: "chain nx ?N ys1 bs" by auto
  have ch: "chain ?nx bs (bs # xs @ ys1) bs"
  proof -
    have "chain ?nx bs F p" using c1 pF bF by (simp add: chain_upd)
    moreover have "chain ?nx ?N ys1 bs" using c2 pys1 bys1 by (simp add: chain_upd)
    ultimately have "chain ?nx bs ((F @ [p]) @ ys1) bs"
      by (auto simp: chain_append)
    then have "chain ?nx bs ((bs # xs) @ ys1) bs" by (simp only: Fp)
    then show ?thesis by simp
  qed
  have s0: "sorted_wrt (\<lambda>x y. en x < y) (xs @ ys)" using ring_sorted_en [OF r] .
  have srt: "sorted_wrt (\<lambda>x y. ?en x < y) (xs @ ys1)"
  proof -
    have sx: "sorted_wrt (\<lambda>x y. en x < y) xs" and sy: "sorted_wrt (\<lambda>x y. en x < y) ys1"
      and cr: "\<forall>x \<in> set xs. \<forall>y \<in> set ys1. en x < y"
      using s0 ys by (auto simp: sorted_wrt_append)
    have "sorted_wrt (\<lambda>x y. en x < y) (butlast xs @ [p])" using sx xsF by simp
    then have sb: "sorted_wrt (\<lambda>x y. en x < y) (butlast xs)" and bp: "\<forall>x \<in> set (butlast xs). en x < p"
      by (auto simp: sorted_wrt_append)
    have "distinct (butlast xs @ [p])" using dist xsF by simp
    then have pnb': "p \<notin> set (butlast xs)" by simp
    have bnb': "b \<notin> set (butlast xs)" using bnfr by (auto dest: in_set_butlastD)
    have "sorted_wrt (\<lambda>x y. ?en x < y) (butlast xs)"
      using sb by (rule sorted_wrt_mono_rel [rotated]) (use pnb' bnb' in auto)
    moreover have "\<forall>x \<in> set (butlast xs). ?en x < p" using bp pnb' bnb' by auto
    ultimately have "sorted_wrt (\<lambda>x y. ?en x < y) (butlast xs @ [p])"
      by (simp add: sorted_wrt_append)
    then have 1: "sorted_wrt (\<lambda>x y. ?en x < y) xs" using xsF by simp
    have 2: "sorted_wrt (\<lambda>x y. ?en x < y) ys1"
      using sy by (rule sorted_wrt_mono_rel [rotated]) (use pys1 bys1 in auto)
    have 3: "\<forall>x \<in> set xs. \<forall>y \<in> set ys1. ?en x < y" using cr e1(3) bnfr by auto
    show ?thesis using 1 2 3 by (simp add: sorted_wrt_append)
  qed
  show ?thesis
  proof (rule ringI)
    show "chain ?nx bs (bs # xs @ ys1) bs" by (rule ch)
    show "sorted_wrt (\<lambda>x y. ?en x < y) (xs @ ys1)" by (rule srt)
  next
    fix a assume a: "a \<in> set (xs @ ys1)"
    then have af: "a \<in> set (xs @ ys)" using ys by auto
    show "lo \<le> a \<and> a < ?en a \<and> ?en a \<le> lim"
    proof (cases "a = p")
      case True then show ?thesis using pb lm e1 by simp
    next
      case False
      with ring_free_blk [OF r af] af bnfr show ?thesis by auto
    qed
  next
    fix a assume "a \<in> ls"
    then have "a \<in> insert b ls" "a \<noteq> b" using bl by auto
    moreover have "a \<noteq> p" using ring_live_not_free [OF r calculation(1)] pf by auto
    ultimately show "lo \<le> a \<and> a < ?en a \<and> ?en a \<le> lim"
      using ring_live_blk [OF r, of a] by simp
  next
    fix l f assume l: "l \<in> ls" and f: "f \<in> set (xs @ ys1)"
    have lb: "l \<noteq> b" "l \<in> insert b ls" using l bl by auto
    have lp: "l \<noteq> p" using ring_live_not_free [OF r lb(2)] pf by auto
    have ff: "f \<in> set (xs @ ys)" using f ys by auto
    have fb: "f \<noteq> b" using ff bnfr by auto
    show "?en l \<le> f \<or> ?en f \<le> l"
    proof (cases "f = p")
      case True
      from ring_live_free [OF r lb(2) pf] have "en l \<le> p \<or> b \<le> l" using lm by simp
      moreover have "en l \<le> b \<or> e1 \<le> l" using dl l by simp
      moreover have "l < en l" using ring_live_blk [OF r lb(2)] by simp
      ultimately show ?thesis using True lb lp by auto
    next
      case False
      from ring_live_free [OF r lb(2) ff] False lb lp fb show ?thesis by simp
    qed
  next
    fix l m assume lm': "l \<in> ls" "m \<in> ls" "l \<noteq> m"
    then have i: "l \<in> insert b ls" "m \<in> insert b ls" by auto
    have "l \<noteq> b" "m \<noteq> b" using lm' bl by auto
    moreover have "l \<noteq> p" "m \<noteq> p"
      using ring_live_not_free [OF r i(1)] ring_live_not_free [OF r i(2)] pf by auto
    ultimately show "?en l \<le> m \<or> ?en m \<le> l"
      using ring_live_live [OF r i lm'(3)] by simp
  qed
qed

section \<open>memmgr\_free keeps the shape\<close>

text \<open>The upper neighbour: what the first merge test of memmgr\_free establishes.\<close>

lemma ring_upper_keep:
  assumes r: "ring bs lo lim nx en (xs @ ys) (insert b ls)"
    and yb: "\<forall>y \<in> set ys. b < y"
    and nu: "en b \<noteq> hd (ys @ [bs])"
  shows "b < en b \<and> en b \<le> lim \<and> (\<forall>y \<in> set ys. en b < y) \<and> (\<forall>l \<in> ls. b \<noteq> l \<longrightarrow> en l \<le> b \<or> en b \<le> l)"
proof -
  have b_in: "b \<in> insert b ls" by simp
  have bb: "lo \<le> b \<and> b < en b \<and> en b \<le> lim" using ring_live_blk [OF r b_in] .
  have s0: "sorted_wrt (\<lambda>x y. en x < y) ys" using ring_sorted_en [OF r] by (simp add: sorted_wrt_append)
  have "en b < y" if "y \<in> set ys" for y
  proof -
    have yf: "y \<in> set (xs @ ys)" using that by simp
    have "b < y" using yb that by simp
    with ring_live_free [OF r b_in yf] ring_free_blk [OF r yf] have le: "en b \<le> y" by auto
    from that obtain y0 ys' where ys: "ys = y0 # ys'" by (cases ys) auto
    show ?thesis
    proof (cases "y = y0")
      case True with nu ys le show ?thesis by auto
    next
      case False
      with that ys have "y \<in> set ys'" by auto
      with s0 ys have "en y0 < y" by auto
      moreover have "y0 \<in> set (xs @ ys)" using ys by simp
      from ring_live_free [OF r b_in this] ring_free_blk [OF r this] yb ys have "en b \<le> y0" by auto
      moreover have "y0 < en y0" using ring_free_blk [OF r \<open>y0 \<in> set (xs @ ys)\<close>] by simp
      ultimately show ?thesis by simp
    qed
  qed
  moreover have "en l \<le> b \<or> en b \<le> l" if "l \<in> ls" "b \<noteq> l" for l
    using ring_live_live [OF r, of l b] that by auto
  ultimately show ?thesis using bb by blast
qed

lemma ring_upper_merge:
  assumes r: "ring bs lo lim nx en (xs @ ys) (insert b ls)"
    and out: "bs < lo \<or> lim < bs"
    and yb: "\<forall>y \<in> set ys. b < y"
    and up: "en b = hd (ys @ [bs])"
  shows "\<exists>y ys1. ys = y # ys1 \<and> en b = y \<and> nx y = hd (ys1 @ [bs]) \<and>
           b < en y \<and> en y \<le> lim \<and> (\<forall>z \<in> set ys1. en y < z) \<and>
           (\<forall>l \<in> ls. b \<noteq> l \<longrightarrow> en l \<le> b \<or> en y \<le> l)"
proof -
  have b_in: "b \<in> insert b ls" by simp
  have bb: "lo \<le> b \<and> b < en b \<and> en b \<le> lim" using ring_live_blk [OF r b_in] .
  have "ys \<noteq> []" using up bb out by auto
  then obtain y ys1 where ys: "ys = y # ys1" by (cases ys) auto
  have eb: "en b = y" using up ys by simp
  have yf: "y \<in> set (xs @ ys)" using ys by simp
  have yy: "lo \<le> y \<and> y < en y \<and> en y \<le> lim" using ring_free_blk [OF r yf] .
  have "chain nx bs ((bs # xs) @ [y] @ ys1) bs" using ring_chain [OF r] ys by simp
  then have ny: "nx y = hd (ys1 @ [bs])"
    using chain_last_next [of nx bs "(bs # xs) @ [y]" ys1 bs] by simp
  have s0: "sorted_wrt (\<lambda>x y. en x < y) ys" using ring_sorted_en [OF r] by (simp add: sorted_wrt_append)
  then have gt: "\<forall>z \<in> set ys1. en y < z" using ys by simp
  have "en l \<le> b \<or> en y \<le> l" if "l \<in> ls" "b \<noteq> l" for l
  proof -
    have li: "l \<in> insert b ls" using that by simp
    have 1: "en l \<le> b \<or> en b \<le> l" using ring_live_live [OF r li b_in] that by auto
    have 2: "en l \<le> y \<or> en y \<le> l" using ring_live_free [OF r li yf] .
    have 3: "l < en l" using ring_live_blk [OF r li] by simp
    from 1 2 3 eb show ?thesis by auto
  qed
  then show ?thesis using ys eb ny bb yy gt by auto
qed

lemma ring_free:
  assumes r: "ring bs lo lim nx en (xs @ ys) (insert b ls)" and bl: "b \<notin> ls"
    and out: "bs < lo \<or> lim < bs"
    and xb: "\<forall>x \<in> set xs. x < b" and yb: "\<forall>y \<in> set ys. b < y"
    and p: "p = last (bs # xs)"
    and N1: "N1 = (if en b = nx p then nx (nx p) else nx p)"
    and e1: "e1 = (if en b = nx p then en (nx p) else en b)"
    and nx': "nx' = (if p \<noteq> bs \<and> en p = b then nx(b := N1, p := N1) else nx(b := N1, p := b))"
    and en': "en' = (if p \<noteq> bs \<and> en p = b then en(b := e1, p := e1) else en(b := e1))"
  shows "\<exists>fs'. ring bs lo lim nx' en' fs' ls \<and>
          p \<in> set (bs # fs') \<and> set fs' \<subseteq> insert b (set (xs @ ys)) \<and>
          (\<exists>f \<in> set fs'. f \<le> b \<and> en b \<le> en' f)"
proof -
  have "chain nx bs ((bs # xs) @ ys) bs" using ring_chain [OF r] by simp
  from chain_last_next [OF this] have np: "nx p = hd (ys @ [bs])" using p by simp
  have pin: "p \<in> set (bs # xs)" unfolding p by (rule last_in_set) simp
  have "\<exists>pre ys1. ys = pre @ ys1 \<and> N1 = hd (ys1 @ [bs]) \<and> b < e1 \<and> e1 \<le> lim \<and>
          (\<forall>y \<in> set ys1. e1 < y) \<and> (\<forall>l \<in> ls. en l \<le> b \<or> e1 \<le> l) \<and> en b \<le> e1"
  proof (cases "en b = nx p")
    case True
    then have "en b = hd (ys @ [bs])" using np by simp
    from ring_upper_merge [OF r out yb this] obtain y ys1 where
      y: "ys = y # ys1" "en b = y" "nx y = hd (ys1 @ [bs])" "b < en y" "en y \<le> lim"
         "\<forall>z \<in> set ys1. en y < z" "\<forall>l \<in> ls. b \<noteq> l \<longrightarrow> en l \<le> b \<or> en y \<le> l"
      by blast
    have "y \<in> set (xs @ ys)" using y(1) by simp
    from ring_free_blk [OF r this] have "en b \<le> en y" using y(2) by simp
    moreover have "nx p = y" using True y(2) by simp
    then have "N1 = hd (ys1 @ [bs])" "e1 = en y" using N1 e1 True y(3) by auto
    moreover have "ys = [y] @ ys1" using y(1) by simp
    moreover have "\<forall>l \<in> ls. en l \<le> b \<or> en y \<le> l" using y(7) bl by auto
    ultimately show ?thesis using y(4,5,6) by blast
  next
    case False
    then have "en b \<noteq> hd (ys @ [bs])" using np by simp
    from ring_upper_keep [OF r yb this] have
      k: "b < en b" "en b \<le> lim" "\<forall>y \<in> set ys. en b < y" "\<forall>l \<in> ls. b \<noteq> l \<longrightarrow> en l \<le> b \<or> en b \<le> l"
      by auto
    have "N1 = hd (ys @ [bs])" "e1 = en b" using N1 e1 False np by auto
    moreover have "ys = [] @ ys" by simp
    moreover have "\<forall>l \<in> ls. en l \<le> b \<or> en b \<le> l" using k(4) bl by auto
    ultimately show ?thesis using k(1,2,3) by blast
  qed
  then obtain pre ys1 where ys: "ys = pre @ ys1" and N: "N1 = hd (ys1 @ [bs])"
    and e: "b < e1" "e1 \<le> lim" "\<forall>y \<in> set ys1. e1 < y" and dl: "\<forall>l \<in> ls. en l \<le> b \<or> e1 \<le> l"
    and ge: "en b \<le> e1"
    by blast
  show ?thesis
  proof (cases "p \<noteq> bs \<and> en p = b")
    case True
    then have lm: "p \<noteq> bs" "en p = b" by auto
    have eq: "nx' = nx(b := N1, p := N1)" "en' = en(b := e1, p := e1)"
      using nx' en' True by simp_all
    have "ring bs lo lim nx' en' (xs @ ys1) ls"
      unfolding eq N by (rule ring_link_merge [OF r bl out xb yb ys e dl p lm])
    moreover have "p \<in> set (bs # xs @ ys1)" using pin by auto
    moreover have "set (xs @ ys1) \<subseteq> insert b (set (xs @ ys))" using ys by auto
    moreover have "p \<in> set (xs @ ys1)" using pin lm by auto
    moreover have "p \<le> b" using pin lm xb by auto
    moreover have "en b \<le> en' p" unfolding eq using ge by simp
    ultimately have "ring bs lo lim nx' en' (xs @ ys1) ls \<and>
          p \<in> set (bs # xs @ ys1) \<and> set (xs @ ys1) \<subseteq> insert b (set (xs @ ys)) \<and>
          (\<exists>f \<in> set (xs @ ys1). f \<le> b \<and> en b \<le> en' f)"
      by blast
    then show ?thesis by (rule exI)
  next
    case False
    then have nl: "p = bs \<or> en p \<noteq> b" by auto
    have eq: "nx' = nx(b := N1, p := b)" "en' = en(b := e1)"
      using nx' en' False by simp_all
    have "ring bs lo lim nx' en' (xs @ b # ys1) ls"
      unfolding eq N by (rule ring_link_keep [OF r bl out xb yb ys e dl p nl])
    moreover have "p \<in> set (bs # xs @ b # ys1)" using pin by auto
    moreover have "set (xs @ b # ys1) \<subseteq> insert b (set (xs @ ys))" using ys by auto
    moreover have "b \<in> set (xs @ b # ys1)" by simp
    moreover have "en b \<le> en' b" unfolding eq using ge by simp
    ultimately have "ring bs lo lim nx' en' (xs @ b # ys1) ls \<and>
          p \<in> set (bs # xs @ b # ys1) \<and> set (xs @ b # ys1) \<subseteq> insert b (set (xs @ ys)) \<and>
          (\<exists>f \<in> set (xs @ b # ys1). f \<le> b \<and> en b \<le> en' f)"
      by blast
    then show ?thesis by (rule exI)
  qed
qed

lemma free_link_fields:
  assumes pb: "p \<noteq> b" and bb: "b \<noteq> base cfg" and sb: "h_size s (base cfg) = 0"
    and N1: "N1 = (if blk_end cfg s b = h_next s p then h_next s (h_next s p) else h_next s p)"
    and e1: "e1 = (if blk_end cfg s b = h_next s p then blk_end cfg s (h_next s p) else blk_end cfg s b)"
    and w1': "blk_end cfg s b = h_next s p \<longrightarrow> h_size s b + h_size s (h_next s p) < INT_MOD"
    and w2': "blk_end cfg s p = b \<and> blk_end cfg s b = h_next s p \<longrightarrow>
               h_size s p + (h_size s b + h_size s (h_next s p)) < INT_MOD"
    and w3': "blk_end cfg s p = b \<and> blk_end cfg s b \<noteq> h_next s p \<longrightarrow>
               h_size s p + h_size s b < INT_MOD"
  shows "h_next (free_link cfg s b p) =
           (if p \<noteq> base cfg \<and> blk_end cfg s p = b then (h_next s)(b := N1, p := N1)
            else (h_next s)(b := N1, p := b))"
    and "blk_end cfg (free_link cfg s b p) =
           (if p \<noteq> base cfg \<and> blk_end cfg s p = b then (blk_end cfg s)(b := e1, p := e1)
            else (blk_end cfg s)(b := e1))"
    and "freep (free_link cfg s b p) = p"
    and "pool_free_pos (free_link cfg s b p) = pool_free_pos s"
    and "bytes (free_link cfg s b p) = bytes s"
    and "h_size (free_link cfg s b p) (base cfg) = 0"
proof -
  have w1: "blk_end cfg s b = h_next s p \<Longrightarrow> h_size s b + h_size s (h_next s p) < INT_MOD"
    and w2: "blk_end cfg s p = b \<Longrightarrow> blk_end cfg s b = h_next s p \<Longrightarrow>
               h_size s p + (h_size s b + h_size s (h_next s p)) < INT_MOD"
    and w3: "blk_end cfg s p = b \<Longrightarrow> blk_end cfg s b \<noteq> h_next s p \<Longrightarrow>
               h_size s p + h_size s b < INT_MOD"
    using w1' w2' w3' by blast+
  have pbase: "p = base cfg \<Longrightarrow> blk_end cfg s p \<noteq> b" using sb bb by (simp add: blk_end_def)
  consider (nn) "blk_end cfg s b \<noteq> h_next s p" "blk_end cfg s p \<noteq> b"
    | (un) "blk_end cfg s b = h_next s p" "blk_end cfg s p \<noteq> b"
    | (nl) "blk_end cfg s b \<noteq> h_next s p" "blk_end cfg s p = b"
    | (ul) "blk_end cfg s b = h_next s p" "blk_end cfg s p = b"
    by blast
  then have "h_next (free_link cfg s b p) =
           (if p \<noteq> base cfg \<and> blk_end cfg s p = b then (h_next s)(b := N1, p := N1)
            else (h_next s)(b := N1, p := b)) \<and>
     blk_end cfg (free_link cfg s b p) =
           (if p \<noteq> base cfg \<and> blk_end cfg s p = b then (blk_end cfg s)(b := e1, p := e1)
            else (blk_end cfg s)(b := e1)) \<and>
     freep (free_link cfg s b p) = p \<and>
     pool_free_pos (free_link cfg s b p) = pool_free_pos s \<and>
     bytes (free_link cfg s b p) = bytes s \<and>
     h_size (free_link cfg s b p) (base cfg) = 0"
  proof cases
    case nn
    show ?thesis
      unfolding free_link_nn [OF nn pb] using nn N1 e1 sb
      by (auto simp: fun_eq_iff blk_end_def)
  next
    case un
    have m: "(h_size s b + h_size s (h_next s p)) mod INT_MOD = h_size s b + h_size s (h_next s p)"
      using w1 [OF un(1)] by simp
    show ?thesis
      unfolding free_link_un [OF un pb] m using un N1 e1 sb bb
      by (auto simp: fun_eq_iff blk_end_def algebra_simps)
  next
    case nl
    have m: "(h_size s p + h_size s b) mod INT_MOD = h_size s p + h_size s b"
      using w3 [OF nl(2,1)] by simp
    have pn: "p \<noteq> base cfg" using pbase nl by auto
    show ?thesis
      unfolding free_link_nl [OF nl pb] m using nl N1 e1 sb bb pn
      by (auto simp: fun_eq_iff blk_end_def algebra_simps)
  next
    case ul
    have m1: "(h_size s b + h_size s (h_next s p)) mod INT_MOD = h_size s b + h_size s (h_next s p)"
      using w1 [OF ul(1)] by simp
    have m2: "(h_size s p + (h_size s b + h_size s (h_next s p))) mod INT_MOD
                = h_size s p + (h_size s b + h_size s (h_next s p))"
      using w2 [OF ul(2,1)] by simp
    have pn: "p \<noteq> base cfg" using pbase ul by auto
    show ?thesis
      unfolding free_link_ul [OF ul pb] m1 m2 using ul N1 e1 sb bb pn
      by (auto simp: fun_eq_iff blk_end_def algebra_simps)
  qed
  then show "h_next (free_link cfg s b p) =
           (if p \<noteq> base cfg \<and> blk_end cfg s p = b then (h_next s)(b := N1, p := N1)
            else (h_next s)(b := N1, p := b))"
    and "blk_end cfg (free_link cfg s b p) =
           (if p \<noteq> base cfg \<and> blk_end cfg s p = b then (blk_end cfg s)(b := e1, p := e1)
            else (blk_end cfg s)(b := e1))"
    and "freep (free_link cfg s b p) = p"
    and "pool_free_pos (free_link cfg s b p) = pool_free_pos s"
    and "bytes (free_link cfg s b p) = bytes s"
    and "h_size (free_link cfg s b p) (base cfg) = 0"
    by blast+
qed

lemma cfg_ok_H: "cfg_ok cfg \<Longrightarrow> 0 < hdr_size cfg"
  by (simp add: cfg_ok_def)

lemma cfg_ok_out:
  "cfg_ok cfg \<Longrightarrow> lim \<le> pool cfg + POOL_SIZE cfg \<Longrightarrow> base cfg < pool cfg \<or> lim < base cfg"
  by (auto simp: cfg_ok_def)

lemma size_no_wrap:
  assumes "cfg_ok cfg" and "n * hdr_size cfg \<le> POOL_SIZE cfg"
  shows "n < INT_MOD"
proof -
  have "0 < hdr_size cfg" using assms(1) by (simp add: cfg_ok_def)
  then have "n \<le> n * hdr_size cfg" by simp
  moreover have "POOL_SIZE cfg < INT_MOD" using assms(1) by (simp add: cfg_ok_def)
  ultimately show ?thesis using assms(2) by linarith
qed

lemma memmgr_free_ring:
  assumes ok: "cfg_ok cfg"
    and r: "ring (base cfg) (pool cfg) lim (h_next s) (blk_end cfg s) fs (insert b ls)"
    and bl: "b \<notin> ls"
    and lim: "lim \<le> pool cfg + POOL_SIZE cfg"
    and fp: "freep s \<in> set (base cfg # fs)"
    and sb: "h_size s (base cfg) = 0"
  shows "\<exists>s' fs'. memmgr_free cfg s (b + hdr_size cfg) = Some s' \<and>
           ring (base cfg) (pool cfg) lim (h_next s') (blk_end cfg s') fs' ls \<and>
           freep s' \<in> set (base cfg # fs') \<and> h_size s' (base cfg) = 0 \<and>
           pool_free_pos s' = pool_free_pos s \<and> bytes s' = bytes s \<and>
           set fs' \<subseteq> insert b (set fs) \<and>
           (\<exists>f \<in> set fs'. f \<le> b \<and> blk_end cfg s b \<le> blk_end cfg s' f) \<and>
           (\<forall>a. a \<notin> insert b (set fs) \<longrightarrow> h_size s' a = h_size s a)"
proof -
  let ?H = "hdr_size cfg" and ?bs = "base cfg" and ?lo = "pool cfg"
  let ?en = "blk_end cfg s" and ?nx = "h_next s"
  have H: "0 < ?H" using ok by (rule cfg_ok_H)
  have out: "?bs < ?lo \<or> lim < ?bs" using ok lim by (rule cfg_ok_out)
  have b_in: "b \<in> insert b ls" by simp
  have bb: "?lo \<le> b \<and> b < ?en b \<and> ?en b \<le> lim" using ring_live_blk [OF r b_in] .
  have bnot: "b \<notin> set fs" using ring_live_not_free [OF r b_in] .
  have bnb: "b \<noteq> ?bs" using ring_base_out [OF r out] by auto
  from split_sorted [OF ring_sorted [OF r] bnot] obtain xs ys where
    fs: "fs = xs @ ys" and xb: "\<forall>x \<in> set xs. x < b" and yb: "\<forall>y \<in> set ys. b < y" by blast
  define p where "p = last (?bs # xs)"
  have r': "ring ?bs ?lo lim ?nx ?en (xs @ ys) (insert b ls)" using r fs by simp
  have bx: "\<forall>x \<in> set xs. x < b \<and> ?lo \<le> x \<and> x \<le> lim"
    using xb ring_free_blk [OF r'] by fastforce
  have "by": "\<forall>y \<in> set ys. b < y \<and> ?lo \<le> y \<and> y \<le> lim"
    using yb ring_free_blk [OF r'] by fastforce
  have pos: "0 < ?bs" "0 < ?lo" using ok by (auto simp: cfg_ok_def)
  have scan: "free_scan s b (freep s) = Some p"
    unfolding p_def
    by (rule free_scan_target [where lo = ?lo and hi = lim and ys = ys])
       (use ring_chain [OF r'] ring_sorted [OF r'] bx "by" out bb pos fp fs in auto)
  have fr: "memmgr_free cfg s (b + ?H) = Some (free_link cfg s b p)"
    using H scan by (simp add: memmgr_free_def)
  have pin: "p = ?bs \<or> p \<in> set xs" unfolding p_def by (cases xs) auto
  have pb: "p \<noteq> b" using pin bnb xb by auto
  have "chain ?nx ?bs ((?bs # xs) @ ys) ?bs" using ring_chain [OF r'] by simp
  from chain_last_next [OF this] have np: "?nx p = hd (ys @ [?bs])" unfolding p_def by simp
  have lp: "lim - ?lo \<le> POOL_SIZE cfg" using lim by simp
  have nin: "?nx p \<in> set ys" "?en (?nx p) \<le> lim" if "?en b = ?nx p"
  proof -
    from that np have "?en b = hd (ys @ [?bs])" by simp
    from ring_upper_merge [OF r' out yb this] obtain y ys1 where "ys = y # ys1" "?en b = y" "?en y \<le> lim"
      by blast
    with that show "?nx p \<in> set ys" "?en (?nx p) \<le> lim" by auto
  qed
  have pblk: "?lo \<le> p" if "?en p = b"
  proof -
    have "p \<noteq> ?bs" using that sb bnb by (auto simp: blk_end_def)
    with pin have "p \<in> set (xs @ ys)" by auto
    from ring_free_blk [OF r' this] show ?thesis by simp
  qed
  have w1: "h_size s b + h_size s (?nx p) < INT_MOD" if "?en b = ?nx p"
  proof -
    have "(h_size s b + h_size s (?nx p)) * ?H \<le> POOL_SIZE cfg"
      using nin(2) [OF that] that bb lp unfolding blk_end_def add_mult_distrib by linarith
    then show ?thesis by (rule size_no_wrap [OF ok])
  qed
  have w2: "h_size s p + (h_size s b + h_size s (?nx p)) < INT_MOD" if "?en p = b" "?en b = ?nx p"
  proof -
    have "(h_size s p + (h_size s b + h_size s (?nx p))) * ?H \<le> POOL_SIZE cfg"
      using nin(2) [OF that(2)] that pblk [OF that(1)] lp unfolding blk_end_def add_mult_distrib by linarith
    then show ?thesis by (rule size_no_wrap [OF ok])
  qed
  have w3: "h_size s p + h_size s b < INT_MOD" if "?en p = b" "?en b \<noteq> ?nx p"
  proof -
    have "(h_size s p + h_size s b) * ?H \<le> POOL_SIZE cfg"
      using that pblk [OF that(1)] bb lp unfolding blk_end_def add_mult_distrib by linarith
    then show ?thesis by (rule size_no_wrap [OF ok])
  qed
  define N1 where "N1 = (if ?en b = ?nx p then ?nx (?nx p) else ?nx p)"
  define e1 where "e1 = (if ?en b = ?nx p then ?en (?nx p) else ?en b)"
  have w1': "?en b = ?nx p \<longrightarrow> h_size s b + h_size s (?nx p) < INT_MOD"
    and w2': "?en p = b \<and> ?en b = ?nx p \<longrightarrow> h_size s p + (h_size s b + h_size s (?nx p)) < INT_MOD"
    and w3': "?en p = b \<and> ?en b \<noteq> ?nx p \<longrightarrow> h_size s p + h_size s b < INT_MOD"
    using w1 w2 w3 by blast+
  note ff = free_link_fields [OF pb bnb sb N1_def e1_def w1' w2' w3']
  from ring_free [OF r' bl out xb yb p_def N1_def e1_def ff(1,2)] obtain fs' where
    R: "ring ?bs ?lo lim (h_next (free_link cfg s b p)) (blk_end cfg (free_link cfg s b p)) fs' ls"
    and P: "p \<in> set (?bs # fs')" and S: "set fs' \<subseteq> insert b (set (xs @ ys))"
    and C: "\<exists>f \<in> set fs'. f \<le> b \<and> ?en b \<le> blk_end cfg (free_link cfg s b p) f"
    by blast
  have U: "h_size (free_link cfg s b p) a = h_size s a" if "a \<notin> insert b (set fs)" for a
  proof -
    have "a \<noteq> b" using that by simp
    moreover have "p = ?bs \<or> a \<noteq> p" using that pin fs by auto
    moreover have "p = ?bs \<Longrightarrow> ?en p \<noteq> b" using sb bnb by (simp add: blk_end_def)
    ultimately show ?thesis by (auto simp: free_link_def Let_def blk_end_def)
  qed
  show ?thesis using fr R P S C U ff(3-6) fs by auto
qed

section \<open>Taking a block off the free list\<close>

lemma chain_pred:
  assumes ch: "chain nx bs (bs # A @ x # B) bs" and d: "distinct (bs # A @ x # B)"
    and pv: "prev \<in> set (bs # A @ x # B)" and nx: "nx prev = x"
  shows "prev = last (bs # A)"
proof -
  from pv obtain U V where uv: "bs # A @ x # B = U @ prev # V" by (meson split_list)
  have "chain nx bs ((U @ [prev]) @ V) bs" using ch unfolding uv by simp
  from chain_last_next [OF this] have "nx prev = hd (V @ [bs])" by simp
  with nx have "hd (V @ [bs]) = x" by simp
  moreover have "x \<noteq> bs" using d by auto
  ultimately obtain V' where V: "V = x # V'" by (cases V) auto
  have e: "(bs # A) @ x # B = (U @ [prev]) @ x # V'" using uv V by simp
  have "x \<notin> set (bs # A)" "x \<notin> set B" using d by auto
  from append_Cons_eq_iff [OF this] e have "bs # A = U @ [prev]" by blast
  then show ?thesis by simp
qed

text \<open>An exact fit: the block is unlinked and becomes live.\<close>

lemma ring_take_exact:
  assumes r: "ring bs lo lim nx en fs ls" and out: "bs < lo \<or> lim < bs"
    and x: "x \<in> set fs" and pv: "prev \<in> set (bs # fs)" and nx: "nx prev = x"
  shows "\<exists>fs'. ring bs lo lim (nx(prev := nx x)) en fs' (insert x ls) \<and>
               prev \<in> set (bs # fs') \<and> set fs' \<subseteq> set fs"
proof -
  from x obtain A B where fs: "fs = A @ x # B" by (meson split_list)
  have bsn: "bs \<notin> set fs" using ring_base_out [OF r out] by simp
  have d: "distinct (bs # A @ x # B)" using ring_distinct [OF r] bsn fs by simp
  have ch: "chain nx bs (bs # A @ x # B) bs" using ring_chain [OF r] fs by simp
  have pl: "prev = last (bs # A)" using chain_pred [OF ch d _ nx] pv fs by simp
  define F where "F = butlast (bs # A)"
  have Fp: "bs # A = F @ [prev]" unfolding F_def pl by simp
  have "distinct ((bs # A) @ x # B)" using d by simp
  then have dF: "distinct ((F @ [prev]) @ x # B)" by (simp only: Fp)
  have pF: "prev \<notin> set F" and pB: "prev \<notin> set B" using dF by auto
  have "chain nx bs ((bs # A) @ x # B) bs" using ch by simp
  then have "chain nx bs ((F @ [prev]) @ x # B) bs" by (simp only: Fp)
  then have "chain nx bs (F @ prev # [x] @ B) bs" by simp
  from chain_mid [OF this] have c1: "chain nx bs F prev" and c2: "chain nx (hd (B @ [bs])) B bs"
    by auto
  have "chain nx bs (((bs # A) @ [x]) @ B) bs" using ch by simp
  from chain_last_next [OF this] have nxx: "nx x = hd (B @ [bs])" by simp
  let ?nx = "nx(prev := nx x)"
  have "chain ?nx bs F prev" using c1 pF by (simp add: chain_upd)
  moreover have "chain ?nx (hd (B @ [bs])) B bs" using c2 pB by (simp add: chain_upd)
  ultimately have "chain ?nx bs ((F @ [prev]) @ B) bs" using nxx by (auto simp: chain_append)
  then have "chain ?nx bs ((bs # A) @ B) bs" by (simp only: Fp)
  then have ch': "chain ?nx bs (bs # A @ B) bs" by simp
  have s0: "sorted_wrt (\<lambda>x y. en x < y) (A @ x # B)" using ring_sorted_en [OF r] fs by simp
  have xb: "lo \<le> x \<and> x < en x \<and> en x \<le> lim" using ring_free_blk [OF r x] .
  have R: "ring bs lo lim ?nx en (A @ B) (insert x ls)"
  proof (rule ringI)
    show "chain ?nx bs (bs # A @ B) bs" by (rule ch')
    show "sorted_wrt (\<lambda>x y. en x < y) (A @ B)" using s0 by (auto simp: sorted_wrt_append)
  next
    fix a assume "a \<in> set (A @ B)"
    then have "a \<in> set fs" using fs by auto
    then show "lo \<le> a \<and> a < en a \<and> en a \<le> lim" by (rule ring_free_blk [OF r])
  next
    fix a assume "a \<in> insert x ls"
    then show "lo \<le> a \<and> a < en a \<and> en a \<le> lim" using xb ring_live_blk [OF r] by auto
  next
    fix l f assume l: "l \<in> insert x ls" and f: "f \<in> set (A @ B)"
    then have ff: "f \<in> set fs" using fs by auto
    show "en l \<le> f \<or> en f \<le> l"
    proof (cases "l = x")
      case True
      from f s0 have "en f < x \<or> en x < f" by (auto simp: sorted_wrt_append)
      with True show ?thesis by auto
    next
      case False
      with l have "l \<in> ls" by simp
      then show ?thesis using ring_live_free [OF r _ ff] by simp
    qed
  next
    fix l m assume lm: "l \<in> insert x ls" "m \<in> insert x ls" "l \<noteq> m"
    show "en l \<le> m \<or> en m \<le> l"
      using lm ring_live_free [OF r _ x] ring_live_live [OF r] by auto
  qed
  moreover have "prev \<in> set (bs # A @ B)" using Fp
    by (metis Un_iff append_Cons in_set_conv_decomp set_append)
  moreover have "set (A @ B) \<subseteq> set fs" using fs by auto
  ultimately show ?thesis by blast
qed

text \<open>A bigger block: its tail from \<open>x'\<close> on becomes live, the front stays on the list.\<close>

lemma ring_take_split:
  assumes r: "ring bs lo lim nx en fs ls" and out: "bs < lo \<or> lim < bs"
    and x: "x \<in> set fs" and x': "x < x'" "x' < en x"
  shows "ring bs lo lim nx (en(x := x', x' := en x)) fs (insert x' ls) \<and> x' \<notin> ls \<and> x' \<noteq> bs"
proof -
  let ?en = "en(x := x', x' := en x)"
  have xb: "lo \<le> x \<and> x < en x \<and> en x \<le> lim" using ring_free_blk [OF r x] .
  have s0: "sorted_wrt (\<lambda>x y. en x < y) fs" using ring_sorted_en [OF r] .
  from x obtain A B where fs: "fs = A @ x # B" by (meson split_list)
  have fr: "en f < x \<or> en x < f" if "f \<in> set fs" "f \<noteq> x" for f
    using that s0 unfolding fs by (auto simp: sorted_wrt_append)
  have fb: "lo \<le> f \<and> f < en f \<and> en f \<le> lim" if "f \<in> set fs" for f
    using ring_free_blk [OF r that] .
  have lb: "lo \<le> l \<and> l < en l \<and> en l \<le> lim" if "l \<in> ls" for l
    using ring_live_blk [OF r that] .
  have lx: "en l \<le> x \<or> en x \<le> l" if "l \<in> ls" for l
    using ring_live_free [OF r that x] .
  have x'f: "x' \<notin> set fs"
  proof
    assume a: "x' \<in> set fs"
    then have "x' \<noteq> x" using x' by simp
    from fr [OF a this] fb [OF a] x' show False by auto
  qed
  have x'l: "x' \<notin> ls"
  proof
    assume a: "x' \<in> ls"
    from lx [OF a] lb [OF a] x' show False by auto
  qed
  have x'b: "x' \<noteq> bs" using out xb x' by auto
  have xl: "x \<notin> ls" using ring_live_not_free [OF r] x by auto
  have le: "?en f \<le> en f" if "f \<in> set fs" for f using that x'f x' by auto
  have "ring bs lo lim nx ?en fs (insert x' ls)"
  proof (rule ringI)
    show "chain nx bs (bs # fs) bs" by (rule ring_chain [OF r])
    show "sorted_wrt (\<lambda>x y. ?en x < y) fs"
      using s0 by (rule sorted_wrt_mono_rel [rotated]) (use le in fastforce)
  next
    fix a assume a: "a \<in> set fs"
    show "lo \<le> a \<and> a < ?en a \<and> ?en a \<le> lim"
      using fb [OF a] a x'f x' xb by auto
  next
    fix a assume a: "a \<in> insert x' ls"
    show "lo \<le> a \<and> a < ?en a \<and> ?en a \<le> lim"
      using a lb xl x' xb by auto
  next
    fix l f assume l: "l \<in> insert x' ls" and f: "f \<in> set fs"
    show "?en l \<le> f \<or> ?en f \<le> l"
    proof (cases "l = x'")
      case True
      show ?thesis
      proof (cases "f = x")
        case True with \<open>l = x'\<close> x' show ?thesis by simp
      next
        case False
        from fr [OF f False] \<open>l = x'\<close> f x'f x' show ?thesis by auto
      qed
    next
      case False
      with l have l': "l \<in> ls" by simp
      have "l \<noteq> x" using l' xl by auto
      show ?thesis
      proof (cases "f = x")
        case True
        with lx [OF l'] False \<open>l \<noteq> x\<close> x' show ?thesis by auto
      next
        case f2: False
        have "f \<noteq> x'" using f x'f by auto
        with ring_live_free [OF r l' f] False \<open>l \<noteq> x\<close> f2 show ?thesis by simp
      qed
    qed
  next
    fix l m assume lm: "l \<in> insert x' ls" "m \<in> insert x' ls" "l \<noteq> m"
    have k: "?en x' \<le> a \<or> ?en a \<le> x'" if "a \<in> ls" for a
      using lx [OF that] that xl x'l x' by auto
    show "?en l \<le> m \<or> ?en m \<le> l"
    proof (cases "l = x'")
      case True
      with lm have "m \<in> ls" by auto
      from k [OF this] True show ?thesis by auto
    next
      case False
      with lm have l': "l \<in> ls" by simp
      show ?thesis
      proof (cases "m = x'")
        case True
        from k [OF l'] True show ?thesis by auto
      next
        case m2: False
        with lm have m': "m \<in> ls" by simp
        from ring_live_live [OF r l' m' lm(3)] False m2 xl l' m' show ?thesis by auto
      qed
    qed
  qed
  then show ?thesis using x'l x'b by simp
qed

lemma take_block_exact:
  assumes "h_size s x = nq"
  shows "take_block cfg nq s prev x =
     (s\<lparr>h_next := (h_next s)(prev := h_next s x), freep := prev\<rparr>, x + hdr_size cfg)"
  using assms by (simp add: take_block_def)

lemma take_block_split:
  assumes "h_size s x \<noteq> nq"
  shows "take_block cfg nq s prev x =
     (s\<lparr>h_size := (h_size s)(x := h_size s x - nq, x + (h_size s x - nq) * hdr_size cfg := nq),
        freep := prev\<rparr>,
      x + (h_size s x - nq) * hdr_size cfg + hdr_size cfg)"
  using assms by (simp add: take_block_def Let_def)

lemma take_block_ring:
  assumes ok: "cfg_ok cfg"
    and r: "ring (base cfg) (pool cfg) lim (h_next s) (blk_end cfg s) fs ls"
    and lim: "lim \<le> pool cfg + POOL_SIZE cfg"
    and sb: "h_size s (base cfg) = 0"
    and x: "x \<in> set fs" and pv: "prev \<in> set (base cfg # fs)" and nx: "h_next s prev = x"
    and fit: "nq \<le> h_size s x" and nq: "1 \<le> nq"
    and tb: "take_block cfg nq s prev x = (s', p)"
  shows "\<exists>fs'. ring (base cfg) (pool cfg) lim (h_next s') (blk_end cfg s') fs'
                  (insert (p - hdr_size cfg) ls) \<and>
           p \<noteq> 0 \<and> hdr_size cfg \<le> p \<and> p - hdr_size cfg \<notin> ls \<and>
           freep s' \<in> set (base cfg # fs') \<and> freep s' \<noteq> 0 \<and> h_size s' (base cfg) = 0 \<and>
           pool_free_pos s' = pool_free_pos s \<and> bytes s' = bytes s \<and>
           h_size s' (p - hdr_size cfg) = nq \<and> set fs' \<subseteq> set fs \<and>
           (\<forall>a. a \<notin> set fs \<longrightarrow> a \<noteq> p - hdr_size cfg \<longrightarrow> h_size s' a = h_size s a)"
proof -
  let ?H = "hdr_size cfg" and ?bs = "base cfg" and ?lo = "pool cfg"
  let ?en = "blk_end cfg s" and ?nx = "h_next s"
  have H: "0 < ?H" using ok by (rule cfg_ok_H)
  have out: "?bs < ?lo \<or> lim < ?bs" using ok lim by (rule cfg_ok_out)
  have xb: "?lo \<le> x \<and> x < ?en x \<and> ?en x \<le> lim" using ring_free_blk [OF r x] .
  have xl: "x \<notin> ls" using ring_live_not_free [OF r] x by auto
  have xbs: "x \<noteq> ?bs" using ring_base_out [OF r out] x by auto
  have p0: "prev \<noteq> 0"
  proof -
    have "0 < ?bs" "0 < ?lo" using ok by (auto simp: cfg_ok_def)
    moreover have "prev = ?bs \<or> ?lo \<le> prev" using pv ring_free_blk [OF r] by auto
    ultimately show ?thesis by auto
  qed
  show ?thesis
  proof (cases "h_size s x = nq")
    case True
    from tb have s': "s' = s\<lparr>h_next := ?nx(prev := ?nx x), freep := prev\<rparr>" and p: "p = x + ?H"
      unfolding take_block_exact [OF True] by auto
    have e: "blk_end cfg s' = ?en" by (simp add: s' blk_end_def fun_eq_iff)
    from ring_take_exact [OF r out x pv nx] obtain fs' where
      "ring ?bs ?lo lim (?nx(prev := ?nx x)) ?en fs' (insert x ls)" "prev \<in> set (?bs # fs')"
      "set fs' \<subseteq> set fs"
      by blast
    then have "ring ?bs ?lo lim (h_next s') (blk_end cfg s') fs' (insert (p - ?H) ls) \<and>
           p \<noteq> 0 \<and> ?H \<le> p \<and> p - ?H \<notin> ls \<and>
           freep s' \<in> set (?bs # fs') \<and> freep s' \<noteq> 0 \<and> h_size s' ?bs = 0 \<and>
           pool_free_pos s' = pool_free_pos s \<and> bytes s' = bytes s \<and>
           h_size s' (p - ?H) = nq \<and> set fs' \<subseteq> set fs \<and>
           (\<forall>a. a \<notin> set fs \<longrightarrow> a \<noteq> p - ?H \<longrightarrow> h_size s' a = h_size s a)"
      unfolding e using H xl p0 sb True by (simp add: s' p)
    then show ?thesis by (rule exI)
  next
    case False
    define rest where "rest = h_size s x - nq"
    define x' where "x' = x + rest * ?H"
    from tb have s': "s' = s\<lparr>h_size := (h_size s)(x := rest, x' := nq), freep := prev\<rparr>"
      and p: "p = x' + ?H"
      unfolding take_block_split [OF False] rest_def x'_def by auto
    have rest: "1 \<le> rest" "rest + nq = h_size s x" using fit False by (auto simp: rest_def)
    have x1: "x < x'" using rest H by (simp add: x'_def)
    have "x' + nq * ?H = ?en x" unfolding x'_def blk_end_def rest(2) [symmetric]
      by (simp add: algebra_simps)
    moreover have "0 < nq * ?H" using nq H by simp
    ultimately have x2: "x' < ?en x" and x3: "x' + nq * ?H = ?en x" by linarith+
    have e: "blk_end cfg s' = ?en(x := x', x' := ?en x)"
      using x1 x3 by (auto simp: s' blk_end_def fun_eq_iff x'_def)
    from ring_take_split [OF r out x x1 x2] have
      R: "ring ?bs ?lo lim ?nx (?en(x := x', x' := ?en x)) fs (insert x' ls)" and "x' \<notin> ls" "x' \<noteq> ?bs"
      by auto
    then have "ring ?bs ?lo lim (h_next s') (blk_end cfg s') fs (insert (p - ?H) ls) \<and>
           p \<noteq> 0 \<and> ?H \<le> p \<and> p - ?H \<notin> ls \<and>
           freep s' \<in> set (?bs # fs) \<and> freep s' \<noteq> 0 \<and> h_size s' ?bs = 0 \<and>
           pool_free_pos s' = pool_free_pos s \<and> bytes s' = bytes s \<and>
           h_size s' (p - ?H) = nq \<and> set fs \<subseteq> set fs \<and>
           (\<forall>a. a \<notin> set fs \<longrightarrow> a \<noteq> p - ?H \<longrightarrow> h_size s' a = h_size s a)"
      unfolding e using H p0 sb pv xbs x by (auto simp: s' p)
    then show ?thesis by (rule exI)
  qed
qed

text \<open>The search of memmgr\_alloc along a path that ends at \<open>freep\<close>.\<close>

lemma alloc_walk:
  assumes "chain (h_next s) p W q" and "W \<noteq> []" and "0 \<notin> set W"
    and "last W = freep s" and "freep s \<notin> set (butlast W)"
    and "h_next s prevp = p"
  shows "(\<exists>prev x. x \<in> set W \<and> prev \<in> insert prevp (set W) \<and> h_next s prev = x \<and>
            nq \<le> h_size s x \<and>
            alloc_loop cfg nq s prevp p = Some (take_block cfg nq s prev x)) \<or>
         ((\<forall>x \<in> set W. h_size s x < nq) \<and>
          alloc_loop cfg nq s prevp p =
            (case get_mem_from_pool cfg s nq of
               None \<Rightarrow> None
             | Some (s', p') \<Rightarrow>
                 if p' = 0 then Some (s', 0) else alloc_loop cfg nq s' p' (h_next s' p')))"
  using assms
proof (induction W arbitrary: p prevp)
  case Nil then show ?case by simp
next
  case (Cons x W)
  from Cons.prems(1) have px: "p = x" and ch: "chain (h_next s) (h_next s x) W q" by auto
  from Cons.prems(3) have x0: "x \<noteq> 0" by auto
  show ?case
  proof (cases "nq \<le> h_size s x")
    case True
    have "alloc_loop cfg nq s prevp p = Some (take_block cfg nq s prevp x)"
      unfolding px using x0 True by (rule alloc_loop_fit)
    then show ?thesis using True Cons.prems(6) px by auto
  next
    case False
    then have lt: "h_size s x < nq" by simp
    show ?thesis
    proof (cases W)
      case Nil
      then have "x = freep s" using Cons.prems(4) by simp
      from alloc_loop_carve [OF x0 lt this, of cfg prevp] show ?thesis using lt Nil px by simp
    next
      case (Cons y W')
      then have ne: "x \<noteq> freep s" using Cons.prems(5) by auto
      have step: "alloc_loop cfg nq s prevp p = alloc_loop cfg nq s x (h_next s x)"
        unfolding px using x0 lt ne by (rule alloc_loop_step)
      have "(\<exists>prev z. z \<in> set W \<and> prev \<in> insert x (set W) \<and> h_next s prev = z \<and>
            nq \<le> h_size s z \<and>
            alloc_loop cfg nq s x (h_next s x) = Some (take_block cfg nq s prev z)) \<or>
         ((\<forall>z \<in> set W. h_size s z < nq) \<and>
          alloc_loop cfg nq s x (h_next s x) =
            (case get_mem_from_pool cfg s nq of
               None \<Rightarrow> None
             | Some (s', p') \<Rightarrow>
                 if p' = 0 then Some (s', 0) else alloc_loop cfg nq s' p' (h_next s' p')))"
        by (rule Cons.IH [OF ch]) (use Cons.prems Cons in auto)
      then show ?thesis unfolding step using lt by auto
    qed
  qed
qed

lemma ring_rotate:
  assumes ch: "chain nx bs (bs # fs) bs" and d: "distinct (bs # fs)" and fp: "fp \<in> set (bs # fs)"
  shows "\<exists>W. chain nx (nx fp) W (nx fp) \<and> W \<noteq> [] \<and> last W = fp \<and> fp \<notin> set (butlast W) \<and>
             set W = set (bs # fs)"
proof -
  from fp obtain A B where ab: "bs # fs = A @ fp # B" by (meson split_list)
  have "chain nx bs (A @ fp # [] @ B) bs" using ch unfolding ab by simp
  from chain_mid [OF this] have c1: "chain nx bs A fp" and c2: "chain nx (hd (B @ [bs])) B bs"
    by auto
  have "chain nx bs ((A @ [fp]) @ B) bs" using ch unfolding ab by simp
  from chain_last_next [OF this] have n: "nx fp = hd (B @ [bs])" by simp
  have "chain nx (nx fp) (B @ A @ [fp]) (nx fp)"
    using c1 c2 n by (auto simp: chain_append)
  moreover have "fp \<notin> set (butlast (B @ A @ [fp]))"
    using d unfolding ab by (simp add: butlast_append)
  moreover have "set (B @ A @ [fp]) = set (bs # fs)" unfolding ab by auto
  ultimately show ?thesis by (intro exI [of _ "B @ A @ [fp]"]) simp
qed

section \<open>Carving from the pool\<close>

text \<open>A fresh live block placed right behind the region.\<close>

lemma ring_extend:
  assumes r: "ring bs lo lim nx en fs ls" and lo: "lo \<le> lim" and e: "lim < e"
  shows "ring bs lo e nx (en(lim := e)) fs (insert lim ls) \<and> lim \<notin> ls \<and> lim \<notin> set fs"
proof -
  have fb: "lo \<le> f \<and> f < en f \<and> en f \<le> lim" if "f \<in> set fs" for f
    using ring_free_blk [OF r that] .
  have lb: "lo \<le> l \<and> l < en l \<and> en l \<le> lim" if "l \<in> ls" for l
    using ring_live_blk [OF r that] .
  have nf: "lim \<notin> set fs" using fb by fastforce
  have nl: "lim \<notin> ls" using lb by fastforce
  have "ring bs lo e nx (en(lim := e)) fs (insert lim ls)"
  proof (rule ringI)
    show "chain nx bs (bs # fs) bs" by (rule ring_chain [OF r])
    show "sorted_wrt (\<lambda>x y. (en(lim := e)) x < y) fs"
      using ring_sorted_en [OF r] by (rule sorted_wrt_mono_rel [rotated]) (use nf in auto)
  next
    fix a assume "a \<in> set fs"
    with fb [OF this] nf e show "lo \<le> a \<and> a < (en(lim := e)) a \<and> (en(lim := e)) a \<le> e" by auto
  next
    fix a assume a: "a \<in> insert lim ls"
    show "lo \<le> a \<and> a < (en(lim := e)) a \<and> (en(lim := e)) a \<le> e"
    proof (cases "a = lim")
      case True then show ?thesis using e lo by simp
    next
      case False
      with a have "a \<in> ls" by simp
      from lb [OF this] False e show ?thesis by simp
    qed
  next
    fix l f assume "l \<in> insert lim ls" "f \<in> set fs"
    with fb [of f] nf nl ring_live_free [OF r, of l f]
    show "(en(lim := e)) l \<le> f \<or> (en(lim := e)) f \<le> l" by auto
  next
    fix l m assume "l \<in> insert lim ls" "m \<in> insert lim ls" "l \<noteq> m"
    with lb [of l] lb [of m] nl ring_live_live [OF r, of l m]
    show "(en(lim := e)) l \<le> m \<or> (en(lim := e)) m \<le> l" by auto
  qed
  then show ?thesis using nl nf by simp
qed

lemma valid_nz:
  "freep s \<noteq> 0 \<Longrightarrow> valid cfg s fs ls \<longleftrightarrow>
     pool_free_pos s \<le> POOL_SIZE cfg \<and> hdr_size cfg dvd pool_free_pos s \<and>
     freep s \<in> set (base cfg # fs) \<and> h_size s (base cfg) = 0 \<and>
     ring (base cfg) (pool cfg) (pool cfg + pool_free_pos s) (h_next s) (blk_end cfg s) fs ls"
  by (simp add: valid_def)

lemma ring_nodes_nz:
  assumes "cfg_ok cfg" and "ring (base cfg) (pool cfg) lim nx en fs ls" and "a \<in> set (base cfg # fs)"
  shows "a \<noteq> 0"
proof -
  have "0 < base cfg" "0 < pool cfg" using assms(1) by (auto simp: cfg_ok_def)
  moreover have "a = base cfg \<or> pool cfg \<le> a" using assms(3) ring_free_blk [OF assms(2)] by auto
  ultimately show ?thesis by auto
qed

text \<open>A carve whose size arithmetic does not wrap around.\<close>

lemma get_mem_from_pool_valid:
  assumes ok: "cfg_ok cfg" and v: "valid cfg s fs ls" and fz: "freep s \<noteq> 0"
    and nq': "nq' = (if nq < MIN_POOL_ALLOC_QUANTAS cfg then MIN_POOL_ALLOC_QUANTAS cfg else nq)"
    and pos: "1 \<le> nq'" and nw: "nq' * hdr_size cfg + POOL_SIZE cfg < INT_MOD"
  shows "if pool_free_pos s + nq' * hdr_size cfg \<le> POOL_SIZE cfg
         then \<exists>s' fs'. get_mem_from_pool cfg s nq = Some (s', freep s') \<and> freep s' \<noteq> 0 \<and>
                valid cfg s' fs' ls \<and>
                pool_free_pos s' = pool_free_pos s + nq' * hdr_size cfg \<and>
                bytes s' = bytes s \<and> (\<exists>f \<in> set fs'. nq' \<le> h_size s' f) \<and>
                (\<forall>l \<in> ls. h_size s' l = h_size s l)
         else get_mem_from_pool cfg s nq = Some (s, 0)"
proof -
  let ?H = "hdr_size cfg" and ?bs = "base cfg" and ?lo = "pool cfg"
  let ?pos = "pool_free_pos s"
  let ?tot = "nq' * ?H"
  have H: "0 < ?H" using ok by (rule cfg_ok_H)
  from v fz have pb: "?pos \<le> POOL_SIZE cfg" and dv: "?H dvd ?pos"
    and fp: "freep s \<in> set (?bs # fs)" and sb: "h_size s ?bs = 0"
    and r: "ring ?bs ?lo (?lo + ?pos) (h_next s) (blk_end cfg s) fs ls"
    by (simp_all add: valid_nz)
  have m1: "?tot mod INT_MOD = ?tot" using nw by simp
  have m2: "(?pos + ?tot) mod INT_MOD = ?pos + ?tot" using nw pb by simp
  show ?thesis
  proof (cases "?pos + ?tot \<le> POOL_SIZE cfg")
    case False
    then have "get_mem_from_pool cfg s nq = Some (s, 0)"
      unfolding get_mem_from_pool_def nq' [symmetric] Let_def m1 m2 by simp
    with False show ?thesis by simp
  next
    case True
    define h where "h = ?lo + ?pos"
    define s1 where "s1 = s\<lparr>h_size := (h_size s)(h := nq')\<rparr>"
    define lim where "lim = h + ?tot"
    have gm: "get_mem_from_pool cfg s nq =
        (case memmgr_free cfg s1 (h + ?H) of None \<Rightarrow> None
         | Some s2 \<Rightarrow> Some (s2\<lparr>pool_free_pos := pool_free_pos s2 + ?tot\<rparr>, freep s2))"
    proof -
      have "pool_free_pos s2 + ?tot = (pool_free_pos s2 + ?tot) mod INT_MOD"
        if "memmgr_free cfg s1 (h + ?H) = Some s2" for s2
      proof -
        have "pool_free_pos s2 = ?pos"
          using that by (auto simp: memmgr_free_def free_link_def Let_def s1_def split: option.splits if_splits)
        then show ?thesis using m2 by simp
      qed
      then show ?thesis
        unfolding get_mem_from_pool_def nq' [symmetric] Let_def m1 m2 h_def [symmetric] s1_def [symmetric]
        using True by (auto split: option.splits)
    qed
    have tpos: "0 < ?tot" using pos H by simp
    from ring_extend [OF r, of lim] tpos have
      re: "ring ?bs ?lo lim (h_next s) ((blk_end cfg s)(h := lim)) fs (insert h ls)"
      and hl: "h \<notin> ls" and hf: "h \<notin> set fs"
      by (auto simp: h_def lim_def)
    have e1: "blk_end cfg s1 = (blk_end cfg s)(h := lim)"
      by (auto simp: s1_def blk_end_def fun_eq_iff lim_def)
    have limb: "lim \<le> ?lo + POOL_SIZE cfg" using True by (simp add: lim_def h_def)
    have out: "?bs < ?lo \<or> lim < ?bs" using ok limb by (rule cfg_ok_out)
    have hb: "h \<noteq> ?bs" using ring_base_out [OF re out] by auto
    have r1: "ring ?bs ?lo lim (h_next s1) (blk_end cfg s1) fs (insert h ls)"
      unfolding e1 using re by (simp add: s1_def)
    have fp1: "freep s1 \<in> set (?bs # fs)" using fp by (simp add: s1_def)
    have sb1: "h_size s1 ?bs = 0" using sb hb by (simp add: s1_def)
    from memmgr_free_ring [OF ok r1 hl limb fp1 sb1] obtain s2 fs' where
      f: "memmgr_free cfg s1 (h + ?H) = Some s2"
      and r2: "ring ?bs ?lo lim (h_next s2) (blk_end cfg s2) fs' ls"
      and fp2: "freep s2 \<in> set (?bs # fs')" and sb2: "h_size s2 ?bs = 0"
      and ps2: "pool_free_pos s2 = pool_free_pos s1" and by2: "bytes s2 = bytes s1"
      and cov: "\<exists>f \<in> set fs'. f \<le> h \<and> blk_end cfg s1 h \<le> blk_end cfg s2 f"
      and frm: "\<forall>a. a \<notin> insert h (set fs) \<longrightarrow> h_size s2 a = h_size s1 a"
      by blast
    define s' where "s' = s2\<lparr>pool_free_pos := pool_free_pos s2 + ?tot\<rparr>"
    have g: "get_mem_from_pool cfg s nq = Some (s', freep s')" unfolding gm f s'_def by simp
    have ps': "pool_free_pos s' = ?pos + ?tot" using ps2 by (simp add: s'_def s1_def)
    have e': "blk_end cfg s' = blk_end cfg s2" by (simp add: s'_def blk_end_def fun_eq_iff)
    have l': "?lo + pool_free_pos s' = lim" unfolding ps' by (simp add: lim_def h_def)
    have fz': "freep s' \<noteq> 0" using ring_nodes_nz [OF ok r2 fp2] by (simp add: s'_def)
    have v': "valid cfg s' fs' ls"
      unfolding valid_nz [OF fz'] l' e' using r2 fp2 sb2 True dv ps' by (simp add: s'_def)
    from cov obtain f where f1: "f \<in> set fs'" "f \<le> h" "blk_end cfg s1 h \<le> blk_end cfg s2 f" by blast
    have "h + nq' * ?H \<le> f + h_size s2 f * ?H" using f1(3) by (simp add: blk_end_def s1_def)
    with f1(2) have "nq' * ?H \<le> h_size s2 f * ?H" by linarith
    then have "nq' \<le> h_size s2 f" using H by simp
    then have fit: "\<exists>f \<in> set fs'. nq' \<le> h_size s' f" using f1(1) by (auto simp: s'_def)
    have lv: "\<forall>l \<in> ls. h_size s' l = h_size s l"
    proof
      fix l assume l: "l \<in> ls"
      then have "l \<noteq> h" using hl by auto
      moreover have "l \<notin> set fs" using ring_live_not_free [OF r l] .
      ultimately have "h_size s2 l = h_size s1 l" using frm by simp
      then show "h_size s' l = h_size s l" using \<open>l \<noteq> h\<close> by (simp add: s'_def s1_def)
    qed
    have "get_mem_from_pool cfg s nq = Some (s', freep s') \<and> freep s' \<noteq> 0 \<and>
                valid cfg s' fs' ls \<and>
                pool_free_pos s' = ?pos + ?tot \<and>
                bytes s' = bytes s \<and> (\<exists>f \<in> set fs'. nq' \<le> h_size s' f) \<and>
                (\<forall>l \<in> ls. h_size s' l = h_size s l)"
      using g fz' v' ps' by2 fit lv by (simp add: s'_def s1_def)
    then show ?thesis using True by (simp only: if_True) blast
  qed
qed

section \<open>memmgr\_alloc keeps the invariants\<close>

lemma alloc_take_valid:
  assumes ok: "cfg_ok cfg" and v: "valid cfg s fs ls" and fz: "freep s \<noteq> 0"
    and nq: "1 \<le> nq"
    and x: "x \<in> set (base cfg # fs)" and pv: "prev \<in> set (base cfg # fs)"
    and nx: "h_next s prev = x" and fit: "nq \<le> h_size s x"
    and tb: "take_block cfg nq s prev x = (s', p)"
  shows "\<exists>fs'. p \<noteq> 0 \<and> hdr_size cfg \<le> p \<and> p - hdr_size cfg \<notin> ls \<and>
           valid cfg s' fs' (insert (p - hdr_size cfg) ls) \<and>
           h_size s' (p - hdr_size cfg) = nq \<and> freep s' \<noteq> 0 \<and> bytes s' = bytes s \<and>
           pool_free_pos s' = pool_free_pos s \<and> (\<forall>l \<in> ls. h_size s' l = h_size s l)"
proof -
  from v fz have pb: "pool_free_pos s \<le> POOL_SIZE cfg" and dv: "hdr_size cfg dvd pool_free_pos s"
    and sb: "h_size s (base cfg) = 0"
    and r: "ring (base cfg) (pool cfg) (pool cfg + pool_free_pos s) (h_next s) (blk_end cfg s) fs ls"
    by (simp_all add: valid_nz)
  have x': "x \<in> set fs" using x fit nq sb by auto
  have lim: "pool cfg + pool_free_pos s \<le> pool cfg + POOL_SIZE cfg" using pb by simp
  from take_block_ring [OF ok r lim sb x' pv nx fit nq tb] obtain fs' where
    t: "ring (base cfg) (pool cfg) (pool cfg + pool_free_pos s) (h_next s') (blk_end cfg s') fs'
                  (insert (p - hdr_size cfg) ls)"
       "p \<noteq> 0" "hdr_size cfg \<le> p" "p - hdr_size cfg \<notin> ls"
       "freep s' \<in> set (base cfg # fs')" "freep s' \<noteq> 0" "h_size s' (base cfg) = 0"
       "pool_free_pos s' = pool_free_pos s" "bytes s' = bytes s"
       "h_size s' (p - hdr_size cfg) = nq"
       "\<forall>a. a \<notin> set fs \<longrightarrow> a \<noteq> p - hdr_size cfg \<longrightarrow> h_size s' a = h_size s a"
    by blast
  have "valid cfg s' fs' (insert (p - hdr_size cfg) ls)"
    unfolding valid_nz [OF t(6)] using t pb dv by simp
  moreover have "\<forall>l \<in> ls. h_size s' l = h_size s l"
    using t(11) t(4) ring_live_not_free [OF r] by auto
  ultimately show ?thesis using t by blast
qed

lemma valid_walk:
  assumes ok: "cfg_ok cfg" and v: "valid cfg s fs ls" and fz: "freep s \<noteq> 0"
  shows "\<exists>W. chain (h_next s) (h_next s (freep s)) W (h_next s (freep s)) \<and> W \<noteq> [] \<and>
             0 \<notin> set W \<and> last W = freep s \<and> freep s \<notin> set (butlast W) \<and>
             set W = set (base cfg # fs)"
proof -
  from v fz have pb: "pool_free_pos s \<le> POOL_SIZE cfg"
    and fp: "freep s \<in> set (base cfg # fs)"
    and r: "ring (base cfg) (pool cfg) (pool cfg + pool_free_pos s) (h_next s) (blk_end cfg s) fs ls"
    by (simp_all add: valid_nz)
  have "pool cfg + pool_free_pos s \<le> pool cfg + POOL_SIZE cfg" using pb by simp
  from cfg_ok_out [OF ok this] have "base cfg \<notin> set fs" using ring_base_out [OF r] by auto
  then have d: "distinct (base cfg # fs)" using ring_distinct [OF r] by simp
  from ring_rotate [OF ring_chain [OF r] d fp] obtain W where
    W: "chain (h_next s) (h_next s (freep s)) W (h_next s (freep s))" "W \<noteq> []" "last W = freep s"
       "freep s \<notin> set (butlast W)" "set W = set (base cfg # fs)"
    by blast
  have "0 \<notin> set W" using ring_nodes_nz [OF ok r] W(5) by auto
  with W show ?thesis by blast
qed

lemma alloc_loop_valid:
  assumes ok: "cfg_ok cfg" and v: "valid cfg s fs ls" and fz: "freep s \<noteq> 0"
    and nq: "1 \<le> nq" and nw: "nq * hdr_size cfg + POOL_SIZE cfg < INT_MOD"
  shows "\<exists>s' p fs'. alloc_loop cfg nq s (freep s) (h_next s (freep s)) = Some (s', p) \<and>
          (if p = 0 then s' = s \<and> (\<forall>f \<in> set fs. h_size s f < nq) \<and>
                POOL_SIZE cfg < pool_free_pos s + max nq (MIN_POOL_ALLOC_QUANTAS cfg) * hdr_size cfg
           else hdr_size cfg \<le> p \<and> p - hdr_size cfg \<notin> ls \<and>
                valid cfg s' fs' (insert (p - hdr_size cfg) ls) \<and>
                h_size s' (p - hdr_size cfg) = nq) \<and>
          freep s' \<noteq> 0 \<and> bytes s' = bytes s \<and> pool_free_pos s \<le> pool_free_pos s' \<and>
          (\<forall>l \<in> ls. h_size s' l = h_size s l)"
proof -
  let ?MQ = "MIN_POOL_ALLOC_QUANTAS cfg"
  define nq' where "nq' = (if nq < ?MQ then ?MQ else nq)"
  have nq'm: "nq' = max nq ?MQ" by (simp add: nq'_def max_def)
  have nq'1: "1 \<le> nq'" "nq \<le> nq'" using nq by (auto simp: nq'_def)
  have nw': "nq' * hdr_size cfg + POOL_SIZE cfg < INT_MOD"
    using nw ok by (auto simp: nq'_def cfg_ok_def)
  from valid_walk [OF ok v fz] obtain W where
    W: "chain (h_next s) (h_next s (freep s)) W (h_next s (freep s))" "W \<noteq> []" "0 \<notin> set W"
       "last W = freep s" "freep s \<notin> set (butlast W)" "set W = set (base cfg # fs)"
    by blast
  from alloc_walk [OF W(1-5) refl, of nq cfg]
  consider (fit) prev x where "x \<in> set W" "prev \<in> insert (freep s) (set W)" "h_next s prev = x"
        "nq \<le> h_size s x"
        "alloc_loop cfg nq s (freep s) (h_next s (freep s)) = Some (take_block cfg nq s prev x)"
    | (carve) "\<forall>x \<in> set W. h_size s x < nq"
        "alloc_loop cfg nq s (freep s) (h_next s (freep s)) =
            (case get_mem_from_pool cfg s nq of
               None \<Rightarrow> None
             | Some (s', p') \<Rightarrow>
                 if p' = 0 then Some (s', 0) else alloc_loop cfg nq s' p' (h_next s' p'))"
    by blast
  then show ?thesis
  proof cases
    case fit
    obtain s' p where tb: "take_block cfg nq s prev x = (s', p)" by (cases "take_block cfg nq s prev x")
    have x: "x \<in> set (base cfg # fs)" using fit(1) W(6) by simp
    have "last W \<in> set W" using W(2) by simp
    then have pv: "prev \<in> set (base cfg # fs)" using fit(2) W(4,6) by auto
    from alloc_take_valid [OF ok v fz nq x pv fit(3,4) tb] obtain fs' where
      "p \<noteq> 0 \<and> hdr_size cfg \<le> p \<and> p - hdr_size cfg \<notin> ls \<and>
           valid cfg s' fs' (insert (p - hdr_size cfg) ls) \<and>
           h_size s' (p - hdr_size cfg) = nq \<and> freep s' \<noteq> 0 \<and> bytes s' = bytes s \<and>
           pool_free_pos s' = pool_free_pos s \<and> (\<forall>l \<in> ls. h_size s' l = h_size s l)"
      by blast
    then show ?thesis using fit(5) tb by auto
  next
    case carve
    note g = get_mem_from_pool_valid [OF ok v fz nq'_def nq'1(1) nw']
    show ?thesis
    proof (cases "pool_free_pos s + nq' * hdr_size cfg \<le> POOL_SIZE cfg")
      case False
      with g have "get_mem_from_pool cfg s nq = Some (s, 0)" by simp
      then have "alloc_loop cfg nq s (freep s) (h_next s (freep s)) = Some (s, 0)"
        using carve(2) by simp
      moreover have "\<forall>f \<in> set fs. h_size s f < nq" using carve(1) W(6) by simp
      ultimately show ?thesis using False fz nq'm by auto
    next
      case True
      with g obtain s1 fs1 where
        g1: "get_mem_from_pool cfg s nq = Some (s1, freep s1)" "freep s1 \<noteq> 0"
            "valid cfg s1 fs1 ls" "pool_free_pos s1 = pool_free_pos s + nq' * hdr_size cfg"
            "bytes s1 = bytes s" "\<exists>f \<in> set fs1. nq' \<le> h_size s1 f"
            "\<forall>l \<in> ls. h_size s1 l = h_size s l"
        by auto
      have a1: "alloc_loop cfg nq s (freep s) (h_next s (freep s)) =
                alloc_loop cfg nq s1 (freep s1) (h_next s1 (freep s1))"
        using carve(2) g1(1,2) by simp
      from valid_walk [OF ok g1(3) g1(2)] obtain W1 where
        W1: "chain (h_next s1) (h_next s1 (freep s1)) W1 (h_next s1 (freep s1))" "W1 \<noteq> []"
            "0 \<notin> set W1" "last W1 = freep s1" "freep s1 \<notin> set (butlast W1)"
            "set W1 = set (base cfg # fs1)"
        by blast
      from g1(6) obtain f0 where "f0 \<in> set fs1" "nq' \<le> h_size s1 f0" by blast
      then have "f0 \<in> set W1" "nq \<le> h_size s1 f0" using nq'1(2) W1(6) by auto
      then have "\<not> (\<forall>x \<in> set W1. h_size s1 x < nq)" by (meson not_less)
      with alloc_walk [OF W1(1-5) refl, of nq cfg] obtain prev x where
        fit: "x \<in> set W1" "prev \<in> insert (freep s1) (set W1)" "h_next s1 prev = x"
          "nq \<le> h_size s1 x"
          "alloc_loop cfg nq s1 (freep s1) (h_next s1 (freep s1)) = Some (take_block cfg nq s1 prev x)"
        by blast
      obtain s' p where tb: "take_block cfg nq s1 prev x = (s', p)"
        by (cases "take_block cfg nq s1 prev x")
      have x: "x \<in> set (base cfg # fs1)" using fit(1) W1(6) by simp
      have "last W1 \<in> set W1" using W1(2) by simp
      then have pv: "prev \<in> set (base cfg # fs1)" using fit(2) W1(4,6) by auto
      from alloc_take_valid [OF ok g1(3) g1(2) nq x pv fit(3,4) tb] obtain fs' where
        "p \<noteq> 0 \<and> hdr_size cfg \<le> p \<and> p - hdr_size cfg \<notin> ls \<and>
           valid cfg s' fs' (insert (p - hdr_size cfg) ls) \<and>
           h_size s' (p - hdr_size cfg) = nq \<and> freep s' \<noteq> 0 \<and> bytes s' = bytes s1 \<and>
           pool_free_pos s' = pool_free_pos s1 \<and> (\<forall>l \<in> ls. h_size s' l = h_size s1 l)"
        by blast
      then show ?thesis using a1 fit(5) tb g1(4,5,7) by auto
    qed
  qed
qed

section \<open>The public operations keep the invariants\<close>

lemma quantas_req:
  assumes ok: "cfg_ok cfg" and rq: "req_ok cfg n"
  shows "quantas cfg n = (n + hdr_size cfg - 1) div hdr_size cfg + 1"
    and "1 \<le> quantas cfg n"
    and "quantas cfg n * hdr_size cfg + POOL_SIZE cfg < INT_MOD"
    and "n \<le> (quantas cfg n - 1) * hdr_size cfg"
proof -
  define H where "H = hdr_size cfg"
  define x where "x = n + H - 1"
  define q where "q = x div H"
  have H: "2 \<le> H" using ok by (simp add: cfg_ok_def H_def)
  have r: "n + 2 * H + POOL_SIZE cfg \<le> INT_MOD" using rq by (simp add: req_ok_def H_def)
  have x: "x < INT_MOD" using r H by (simp add: x_def)
  have d1: "q * H \<le> x" unfolding q_def by simp
  have d2: "x < H + q * H" unfolding q_def using H by (intro dividend_less_div_times) simp
  have e: "(q + 1) * H = q * H + H" by (simp add: algebra_simps)
  have b: "(q + 1) * H + POOL_SIZE cfg < INT_MOD" unfolding e using d1 r H by (simp add: x_def)
  have "(q + 1) * 1 \<le> (q + 1) * H" using H by (intro mult_le_mono2) simp
  then have "q + 1 \<le> (q + 1) * H" by (simp only: mult_1_right)
  with b have "q + 1 < INT_MOD" by linarith
  then have qq: "quantas cfg n = q + 1"
    using x by (simp add: quantas_def q_def x_def H_def)
  then show "quantas cfg n = (n + hdr_size cfg - 1) div hdr_size cfg + 1"
    by (simp add: q_def x_def H_def)
  show "1 \<le> quantas cfg n" unfolding qq by simp
  show "quantas cfg n * hdr_size cfg + POOL_SIZE cfg < INT_MOD"
    unfolding qq using b by (simp add: H_def)
  have "n \<le> q * H" using d2 H by (simp add: x_def)
  then show "n \<le> (quantas cfg n - 1) * hdr_size cfg" unfolding qq by (simp add: H_def)
qed

lemma valid_bytes [simp]: "valid cfg (s\<lparr>bytes := f\<rparr>) fs ls = valid cfg s fs ls"
  by (simp add: valid_def blk_end_def [abs_def])

lemma valid_init: "valid cfg (memmgr_init cfg s) [] {}"
  by (simp add: valid_def memmgr_init_def)

lemma valid_bootstrap:
  assumes v: "valid cfg s fs ls" and fz: "freep s = 0" and ok: "cfg_ok cfg"
    and s1: "s1 = s\<lparr>h_next := (h_next s)(base cfg := base cfg),
                     h_size := (h_size s)(base cfg := 0), freep := base cfg\<rparr>"
  shows "valid cfg s1 [] {} \<and> freep s1 \<noteq> 0 \<and> fs = [] \<and> ls = {}"
proof -
  have b: "base cfg \<noteq> 0" using ok by (simp add: cfg_ok_def)
  then have f: "freep s1 \<noteq> 0" by (simp add: s1)
  from v fz have "fs = []" "ls = {}" "pool_free_pos s \<le> POOL_SIZE cfg" "hdr_size cfg dvd pool_free_pos s"
    by (simp_all add: valid_def)
  then show ?thesis unfolding valid_nz [OF f] using b by (simp add: s1 ring_def)
qed

lemma memmgr_alloc_valid:
  assumes ok: "cfg_ok cfg" and v: "valid cfg s fs ls" and rq: "req_ok cfg n"
  shows "\<exists>s' p fs'. memmgr_alloc cfg s n = Some (s', p) \<and>
          (if p = 0 then valid cfg s' fs' ls \<and> (freep s \<noteq> 0 \<longrightarrow> s' = s) \<and>
                (\<forall>f \<in> set fs. h_size s f < quantas cfg n) \<and>
                POOL_SIZE cfg < pool_free_pos s +
                   max (quantas cfg n) (MIN_POOL_ALLOC_QUANTAS cfg) * hdr_size cfg
           else hdr_size cfg \<le> p \<and> p - hdr_size cfg \<notin> ls \<and>
                valid cfg s' fs' (insert (p - hdr_size cfg) ls) \<and>
                h_size s' (p - hdr_size cfg) = quantas cfg n) \<and>
          freep s' \<noteq> 0 \<and> bytes s' = bytes s \<and> pool_free_pos s \<le> pool_free_pos s' \<and>
          (\<forall>l \<in> ls. h_size s' l = h_size s l)"
proof -
  define nq where "nq = quantas cfg n"
  note q = quantas_req [OF ok rq, folded nq_def]
  define s1 where "s1 = (if freep s = 0
                then s\<lparr>h_next := (h_next s)(base cfg := base cfg),
                       h_size := (h_size s)(base cfg := 0),
                       freep := base cfg\<rparr>
                else s)"
  have ma: "memmgr_alloc cfg s n = alloc_loop cfg nq s1 (freep s1) (h_next s1 (freep s1))"
    by (simp add: memmgr_alloc_def Let_def nq_def s1_def)
  have v1: "valid cfg s1 fs ls \<and> freep s1 \<noteq> 0"
  proof (cases "freep s = 0")
    case True
    then have "s1 = s\<lparr>h_next := (h_next s)(base cfg := base cfg),
                       h_size := (h_size s)(base cfg := 0), freep := base cfg\<rparr>"
      by (simp add: s1_def)
    from valid_bootstrap [OF v True ok this] show ?thesis by simp
  next
    case False then show ?thesis using v by (simp add: s1_def)
  qed
  have same: "bytes s1 = bytes s" "pool_free_pos s1 = pool_free_pos s"
    "freep s \<noteq> 0 \<longrightarrow> s1 = s" "\<forall>f \<in> set fs. h_size s1 f = h_size s f"
    "\<forall>l \<in> ls. h_size s1 l = h_size s l"
    using v by (auto simp: s1_def valid_def)
  from alloc_loop_valid [OF ok conjunct1 [OF v1] conjunct2 [OF v1] q(2,3)]
  obtain s' p fs' where
    a: "alloc_loop cfg nq s1 (freep s1) (h_next s1 (freep s1)) = Some (s', p)"
       "if p = 0 then s' = s1 \<and> (\<forall>f \<in> set fs. h_size s1 f < nq) \<and>
                POOL_SIZE cfg < pool_free_pos s1 + max nq (MIN_POOL_ALLOC_QUANTAS cfg) * hdr_size cfg
           else hdr_size cfg \<le> p \<and> p - hdr_size cfg \<notin> ls \<and>
                valid cfg s' fs' (insert (p - hdr_size cfg) ls) \<and>
                h_size s' (p - hdr_size cfg) = nq"
       "freep s' \<noteq> 0" "bytes s' = bytes s1" "pool_free_pos s1 \<le> pool_free_pos s'"
       "\<forall>l \<in> ls. h_size s' l = h_size s1 l"
    by blast
  show ?thesis
  proof (cases "p = 0")
    case True
    with a(2) have "s' = s1" "\<forall>f \<in> set fs. h_size s1 f < nq"
      "POOL_SIZE cfg < pool_free_pos s1 + max nq (MIN_POOL_ALLOC_QUANTAS cfg) * hdr_size cfg"
      by simp_all
    then have "memmgr_alloc cfg s n = Some (s', p) \<and>
          (if p = 0 then valid cfg s' fs ls \<and> (freep s \<noteq> 0 \<longrightarrow> s' = s) \<and>
                (\<forall>f \<in> set fs. h_size s f < quantas cfg n) \<and>
                POOL_SIZE cfg < pool_free_pos s +
                   max (quantas cfg n) (MIN_POOL_ALLOC_QUANTAS cfg) * hdr_size cfg
           else hdr_size cfg \<le> p \<and> p - hdr_size cfg \<notin> ls \<and>
                valid cfg s' fs (insert (p - hdr_size cfg) ls) \<and>
                h_size s' (p - hdr_size cfg) = quantas cfg n) \<and>
          freep s' \<noteq> 0 \<and> bytes s' = bytes s \<and> pool_free_pos s \<le> pool_free_pos s' \<and>
          (\<forall>l \<in> ls. h_size s' l = h_size s l)"
      using True ma a(1,3) v1 same by (simp add: nq_def)
    then show ?thesis by blast
  next
    case False
    with a(2) have "hdr_size cfg \<le> p" "p - hdr_size cfg \<notin> ls"
      "valid cfg s' fs' (insert (p - hdr_size cfg) ls)" "h_size s' (p - hdr_size cfg) = nq"
      by simp_all
    then have "memmgr_alloc cfg s n = Some (s', p) \<and>
          (if p = 0 then valid cfg s' fs' ls \<and> (freep s \<noteq> 0 \<longrightarrow> s' = s) \<and>
                (\<forall>f \<in> set fs. h_size s f < quantas cfg n) \<and>
                POOL_SIZE cfg < pool_free_pos s +
                   max (quantas cfg n) (MIN_POOL_ALLOC_QUANTAS cfg) * hdr_size cfg
           else hdr_size cfg \<le> p \<and> p - hdr_size cfg \<notin> ls \<and>
                valid cfg s' fs' (insert (p - hdr_size cfg) ls) \<and>
                h_size s' (p - hdr_size cfg) = quantas cfg n) \<and>
          freep s' \<noteq> 0 \<and> bytes s' = bytes s \<and> pool_free_pos s \<le> pool_free_pos s' \<and>
          (\<forall>l \<in> ls. h_size s' l = h_size s l)"
      using False ma a(1,3,4,5,6) same by (simp add: nq_def)
    then show ?thesis by blast
  qed
qed

lemma memmgr_free_valid:
  assumes ok: "cfg_ok cfg" and v: "valid cfg s fs ls" and l: "l \<in> ls"
  shows "\<exists>s' fs'. memmgr_free cfg s (l + hdr_size cfg) = Some s' \<and>
           valid cfg s' fs' (ls - {l}) \<and> freep s' \<noteq> 0 \<and>
           pool_free_pos s' = pool_free_pos s \<and> bytes s' = bytes s \<and>
           (\<exists>f \<in> set fs'. f \<le> l \<and> blk_end cfg s l \<le> blk_end cfg s' f) \<and>
           (\<forall>m \<in> ls - {l}. h_size s' m = h_size s m)"
proof -
  have fz: "freep s \<noteq> 0" using v l by (auto simp: valid_def split: if_splits)
  from v fz have pb: "pool_free_pos s \<le> POOL_SIZE cfg" and dv: "hdr_size cfg dvd pool_free_pos s"
    and fp: "freep s \<in> set (base cfg # fs)" and sb: "h_size s (base cfg) = 0"
    and r: "ring (base cfg) (pool cfg) (pool cfg + pool_free_pos s) (h_next s) (blk_end cfg s) fs ls"
    by (simp_all add: valid_nz)
  have "insert l (ls - {l}) = ls" using l by auto
  then have r': "ring (base cfg) (pool cfg) (pool cfg + pool_free_pos s) (h_next s) (blk_end cfg s) fs
                   (insert l (ls - {l}))"
    using r by simp
  have lim: "pool cfg + pool_free_pos s \<le> pool cfg + POOL_SIZE cfg" using pb by simp
  from memmgr_free_ring [OF ok r' _ lim fp sb] obtain s' fs' where
    f: "memmgr_free cfg s (l + hdr_size cfg) = Some s'"
       "ring (base cfg) (pool cfg) (pool cfg + pool_free_pos s) (h_next s') (blk_end cfg s') fs' (ls - {l})"
       "freep s' \<in> set (base cfg # fs')" "h_size s' (base cfg) = 0"
       "pool_free_pos s' = pool_free_pos s" "bytes s' = bytes s"
       "\<exists>f \<in> set fs'. f \<le> l \<and> blk_end cfg s l \<le> blk_end cfg s' f"
       "\<forall>a. a \<notin> insert l (set fs) \<longrightarrow> h_size s' a = h_size s a"
    by auto
  have fz': "freep s' \<noteq> 0" using ring_nodes_nz [OF ok f(2,3)] .
  have "valid cfg s' fs' (ls - {l})" unfolding valid_nz [OF fz'] using f pb dv by simp
  moreover have "\<forall>m \<in> ls - {l}. h_size s' m = h_size s m"
    using f(8) ring_live_not_free [OF r] by auto
  ultimately show ?thesis using f fz' by blast
qed

lemma valid_live_size:
  assumes ok: "cfg_ok cfg" and v: "valid cfg s fs ls" and l: "l \<in> ls"
  shows "1 \<le> h_size s l" and "h_size s l * hdr_size cfg \<le> POOL_SIZE cfg"
    and "h_size s l < INT_MOD" and "freep s \<noteq> 0" and "pool cfg \<le> l"
proof -
  show fz: "freep s \<noteq> 0" using v l by (auto simp: valid_def split: if_splits)
  from v fz have pb: "pool_free_pos s \<le> POOL_SIZE cfg"
    and r: "ring (base cfg) (pool cfg) (pool cfg + pool_free_pos s) (h_next s) (blk_end cfg s) fs ls"
    by (simp_all add: valid_nz)
  from ring_live_blk [OF r l] have b: "pool cfg \<le> l" "l < l + h_size s l * hdr_size cfg"
    "l + h_size s l * hdr_size cfg \<le> pool cfg + pool_free_pos s"
    by (simp_all add: blk_end_def)
  show "pool cfg \<le> l" by (rule b(1))
  from b(2) show "1 \<le> h_size s l" by (cases "h_size s l") auto
  from b pb show le: "h_size s l * hdr_size cfg \<le> POOL_SIZE cfg" by linarith
  show "h_size s l < INT_MOD" using size_no_wrap [OF ok le] .
qed

text \<open>The grow path of memmgr\_realloc.\<close>

text \<open>The payload of a live block lies inside the pool array.\<close>

lemma valid_live_in_pool:
  assumes ok: "cfg_ok cfg" and v: "valid cfg s fs ls" and l: "l \<in> ls"
    and k: "k \<le> (h_size s l - 1) * hdr_size cfg"
  shows "in_pool cfg (l + hdr_size cfg) k"
    and "l + hdr_size cfg + k \<le> blk_end cfg s l"
proof -
  let ?H = "hdr_size cfg"
  note lv = valid_live_size [OF ok v l]
  from v lv(4) have pb: "pool_free_pos s \<le> POOL_SIZE cfg"
    and r: "ring (base cfg) (pool cfg) (pool cfg + pool_free_pos s) (h_next s) (blk_end cfg s) fs ls"
    by (simp_all add: valid_nz)
  from lv(1) obtain m where m: "h_size s l = Suc m" by (cases "h_size s l") auto
  have e: "(h_size s l - 1) * ?H + ?H = h_size s l * ?H" unfolding m by simp
  show le: "l + ?H + k \<le> blk_end cfg s l" unfolding blk_end_def using k e by linarith
  have "blk_end cfg s l \<le> pool cfg + pool_free_pos s" using ring_live_blk [OF r l] by simp
  then show "in_pool cfg (l + ?H) k" unfolding in_pool_def using le pb lv(5) by linarith
qed

lemma memcpy_Some:
  assumes "in_pool cfg dst n" and "in_pool cfg src n" and "dst + n \<le> src \<or> src + n \<le> dst"
  shows "\<exists>f. memcpy cfg s dst src n = Some (s\<lparr>bytes := f\<rparr>) \<and>
           (\<forall>i < n. f (dst + i) = bytes s (src + i))"
proof -
  let ?f = "\<lambda>a. if dst \<le> a \<and> a < dst + n then bytes s (src + (a - dst)) else bytes s a"
  have "memcpy cfg s dst src n = Some (s\<lparr>bytes := ?f\<rparr>)" using assms by (simp add: memcpy_def)
  moreover have "\<forall>i < n. ?f (dst + i) = bytes s (src + i)" by simp
  ultimately show ?thesis by blast
qed

lemma memset_Some:
  assumes "in_pool cfg dst n"
  shows "\<exists>f. memset cfg s dst c n = Some (s\<lparr>bytes := f\<rparr>) \<and> (\<forall>i < n. f (dst + i) = c)"
proof -
  let ?f = "\<lambda>a. if dst \<le> a \<and> a < dst + n then c else bytes s a"
  have "memset cfg s dst c n = Some (s\<lparr>bytes := ?f\<rparr>)" using assms by (simp add: memset_def)
  moreover have "\<forall>i < n. ?f (dst + i) = c" by simp
  ultimately show ?thesis by blast
qed

lemma memmgr_realloc_grow:
  assumes ok: "cfg_ok cfg" and v: "valid cfg s fs ls" and l: "l \<in> ls"
    and n: "0 < n" and grow: "h_size s l < quantas cfg n"
    and al: "memmgr_alloc cfg s n = Some (s1, q)" and q: "q \<noteq> 0"
    and v1: "valid cfg s1 fs1 (insert (q - hdr_size cfg) ls)" and ql: "q - hdr_size cfg \<notin> ls"
    and b1: "bytes s1 = bytes s" and sz1: "h_size s1 l = h_size s l"
    and Hq: "hdr_size cfg \<le> q" and szq: "h_size s1 (q - hdr_size cfg) = quantas cfg n"
  shows "\<exists>s' fs'. memmgr_realloc cfg s (l + hdr_size cfg) n = Some (s', q) \<and>
           valid cfg s' fs' (insert (q - hdr_size cfg) (ls - {l})) \<and>
           (\<forall>i < (h_size s l - 1) * hdr_size cfg. bytes s' (q + i) = bytes s (l + hdr_size cfg + i)) \<and>
           (\<exists>f \<in> set fs'. f \<le> l \<and> blk_end cfg s l \<le> blk_end cfg s' f) \<and>
           h_size s' (q - hdr_size cfg) = h_size s1 (q - hdr_size cfg) \<and>
           pool_free_pos s' = pool_free_pos s1 \<and> freep s' \<in> set (base cfg # fs')"
proof -
  let ?H = "hdr_size cfg"
  have H: "0 < ?H" using ok by (rule cfg_ok_H)
  note lv = valid_live_size [OF ok v l]
  define len where "len = (h_size s l - 1) * ?H"
  have "len \<le> h_size s l * ?H" unfolding len_def by (intro mult_le_mono1) simp
  then have lenb: "len < INT_MOD" using lv(2) ok by (simp add: cfg_ok_def)
  have ol: "((h_size s1 l + INT_MOD - 1) mod INT_MOD * ?H) mod INT_MOD = len"
  proof -
    have e: "h_size s l + INT_MOD - 1 = (h_size s l - 1) + INT_MOD" using lv(1) by linarith
    have "(h_size s l + INT_MOD - 1) mod INT_MOD = (h_size s l - 1) mod INT_MOD"
      by (simp only: e mod_add_self2)
    also have "\<dots> = h_size s l - 1" using lv(3) by (intro mod_less) linarith
    finally have "(h_size s1 l + INT_MOD - 1) mod INT_MOD * ?H = len"
      by (simp only: sz1 len_def)
    then show ?thesis using lenb by (simp only: mod_less)
  qed
  have l1: "l \<in> insert (q - ?H) ls" and q1: "q - ?H \<in> insert (q - ?H) ls" using l by simp_all
  have ne: "q - ?H \<noteq> l" using ql l by auto
  have qH: "q - ?H + ?H = q" using Hq by simp
  have "h_size s l - 1 \<le> h_size s1 (q - ?H) - 1" unfolding szq using grow by linarith
  then have lq: "len \<le> (h_size s1 (q - ?H) - 1) * ?H" unfolding len_def by (rule mult_le_mono1)
  have ll: "len \<le> (h_size s1 l - 1) * ?H" unfolding len_def sz1 by simp
  note dq = valid_live_in_pool [OF ok v1 q1 lq, unfolded qH]
  note dl = valid_live_in_pool [OF ok v1 l1 ll]
  have fz1: "freep s1 \<noteq> 0" using valid_live_size(4) [OF ok v1 l1] .
  from v1 fz1 have
    r1: "ring (base cfg) (pool cfg) (pool cfg + pool_free_pos s1) (h_next s1) (blk_end cfg s1) fs1
           (insert (q - ?H) ls)"
    by (simp add: valid_nz)
  have "blk_end cfg s1 l \<le> q - ?H \<or> blk_end cfg s1 (q - ?H) \<le> l"
    using ring_live_live [OF r1 l1 q1] ne by auto
  then have dj: "q + len \<le> l + ?H \<or> l + ?H + len \<le> q" using dq(2) dl(2) Hq by linarith
  from memcpy_Some [OF dq(1) dl(1) dj, of s1] obtain f where
    mc: "memcpy cfg s1 q (l + ?H) len = Some (s1\<lparr>bytes := f\<rparr>)"
    and fb: "\<forall>i < len. f (q + i) = bytes s1 (l + ?H + i)"
    by blast
  define s2 where "s2 = s1\<lparr>bytes := f\<rparr>"
  have v2: "valid cfg s2 fs1 (insert (q - ?H) ls)" using v1 by (simp add: s2_def)
  from memmgr_free_valid [OF ok v2 l1] obtain s' fs' where
    f: "memmgr_free cfg s2 (l + ?H) = Some s'"
       "valid cfg s' fs' (insert (q - ?H) ls - {l})"
       "bytes s' = bytes s2" "pool_free_pos s' = pool_free_pos s2"
       "\<exists>f \<in> set fs'. f \<le> l \<and> blk_end cfg s2 l \<le> blk_end cfg s' f"
       "\<forall>m \<in> insert (q - ?H) ls - {l}. h_size s' m = h_size s2 m"
    by blast
  have set: "insert (q - ?H) ls - {l} = insert (q - ?H) (ls - {l})" using ne by auto
  have "memmgr_realloc cfg s (l + ?H) n =
      (case memcpy cfg s1 q (l + ?H)
              (((h_size s1 l + INT_MOD - 1) mod INT_MOD * ?H) mod INT_MOD) of
         None \<Rightarrow> None
       | Some s2 \<Rightarrow> (case memmgr_free cfg s2 (l + ?H) of
                         None \<Rightarrow> None | Some s3 \<Rightarrow> Some (s3, q)))"
    using H n grow al q by (simp add: memmgr_realloc_def Let_def del: One_nat_def)
  then have re: "memmgr_realloc cfg s (l + ?H) n = Some (s', q)"
    unfolding ol mc s2_def [symmetric] using f(1) by simp
  have byt: "\<forall>i < len. bytes s' (q + i) = bytes s (l + ?H + i)"
    unfolding f(3) using fb by (simp add: s2_def b1)
  have e2: "blk_end cfg s2 l = blk_end cfg s l" by (simp add: s2_def blk_end_def sz1)
  have "h_size s' (q - ?H) = h_size s2 (q - ?H)" using f(6) ne by simp
  then have hq: "h_size s' (q - ?H) = h_size s1 (q - ?H)" by (simp add: s2_def)
  have ps: "pool_free_pos s' = pool_free_pos s1" using f(4) by (simp add: s2_def)
  have "q - ?H \<in> insert (q - ?H) ls - {l}" using ne by simp
  from valid_live_size(4) [OF ok f(2) this] f(2) have fp: "freep s' \<in> set (base cfg # fs')"
    by (simp add: valid_nz)
  show ?thesis using re f(2,5) byt hq ps fp unfolding set e2 len_def by blast
qed

lemma memmgr_realloc_valid:
  assumes ok: "cfg_ok cfg" and v: "valid cfg s fs ls" and l: "l \<in> ls" and rq: "req_ok cfg n"
  shows "\<exists>s' q fs'. memmgr_realloc cfg s (l + hdr_size cfg) n = Some (s', q) \<and>
           valid cfg s' fs' (if n = 0 then ls - {l} else if q = 0 then ls
                             else insert (q - hdr_size cfg) (ls - {l})) \<and>
           pool_free_pos s \<le> pool_free_pos s'"
proof -
  let ?H = "hdr_size cfg"
  have H: "0 < ?H" using ok by (rule cfg_ok_H)
  show ?thesis
  proof (cases "n = 0")
    case True
    from memmgr_free_valid [OF ok v l] obtain s' fs' where
      "memmgr_free cfg s (l + ?H) = Some s'" "valid cfg s' fs' (ls - {l})"
      "pool_free_pos s' = pool_free_pos s" by blast
    then show ?thesis using True H by (auto simp: memmgr_realloc_def)
  next
    case False
    show ?thesis
    proof (cases "quantas cfg n \<le> h_size s l")
      case True
      then have "memmgr_realloc cfg s (l + ?H) n = Some (s, l + ?H)"
        using False H by (simp add: memmgr_realloc_def Let_def)
      moreover have "insert l (ls - {l}) = ls" using l by auto
      ultimately show ?thesis using v False H by auto
    next
      case g: False
      from memmgr_alloc_valid [OF ok v rq] obtain s1 q fs1 where
        a: "memmgr_alloc cfg s n = Some (s1, q)"
           "if q = 0 then valid cfg s1 fs1 ls \<and> (freep s \<noteq> 0 \<longrightarrow> s1 = s) \<and>
                (\<forall>f \<in> set fs. h_size s f < quantas cfg n) \<and>
                POOL_SIZE cfg < pool_free_pos s +
                   max (quantas cfg n) (MIN_POOL_ALLOC_QUANTAS cfg) * hdr_size cfg
           else hdr_size cfg \<le> q \<and> q - hdr_size cfg \<notin> ls \<and>
                valid cfg s1 fs1 (insert (q - hdr_size cfg) ls) \<and>
                h_size s1 (q - hdr_size cfg) = quantas cfg n"
           "bytes s1 = bytes s" "pool_free_pos s \<le> pool_free_pos s1"
           "\<forall>l \<in> ls. h_size s1 l = h_size s l"
        by blast
      show ?thesis
      proof (cases "q = 0")
        case True
        then have "memmgr_realloc cfg s (l + ?H) n = Some (s1, 0)"
          using False H g a(1) by (simp add: memmgr_realloc_def Let_def)
        then show ?thesis using True a(2,4) False by auto
      next
        case q: False
        with a(2) have v1: "valid cfg s1 fs1 (insert (q - ?H) ls)" and ql: "q - ?H \<notin> ls" by auto
        have n: "0 < n" using False by simp
        have gr: "h_size s l < quantas cfg n" using g by simp
        have sz: "h_size s1 l = h_size s l" using a(5) l by simp
        from a(2) q have Hq: "?H \<le> q" and szq: "h_size s1 (q - ?H) = quantas cfg n" by auto
        from memmgr_realloc_grow [OF ok v l n gr a(1) q v1 ql a(3) sz Hq szq] obtain s' fs' where
          "memmgr_realloc cfg s (l + ?H) n = Some (s', q)"
          "valid cfg s' fs' (insert (q - ?H) (ls - {l}))" "pool_free_pos s' = pool_free_pos s1"
          by blast
        then show ?thesis using q False a(4) by auto
      qed
    qed
  qed
qed

lemma memmgr_calloc_valid:
  assumes ok: "cfg_ok cfg" and v: "valid cfg s fs ls" and rq: "req_ok cfg (num * nb)"
  shows "\<exists>s' p fs'. memmgr_calloc cfg s num nb = Some (s', p) \<and>
           valid cfg s' fs' (if p = 0 then ls else insert (p - hdr_size cfg) ls) \<and>
           pool_free_pos s \<le> pool_free_pos s'"
proof -
  have "num * nb < INT_MOD" using rq ok by (simp add: req_ok_def cfg_ok_def)
  then have m: "(num * nb) mod INT_MOD = num * nb" by simp
  from memmgr_alloc_valid [OF ok v rq] obtain s1 p fs1 where
    a: "memmgr_alloc cfg s (num * nb) = Some (s1, p)"
       "if p = 0 then valid cfg s1 fs1 ls \<and> (freep s \<noteq> 0 \<longrightarrow> s1 = s) \<and>
                (\<forall>f \<in> set fs. h_size s f < quantas cfg (num * nb)) \<and>
                POOL_SIZE cfg < pool_free_pos s +
                   max (quantas cfg (num * nb)) (MIN_POOL_ALLOC_QUANTAS cfg) * hdr_size cfg
           else hdr_size cfg \<le> p \<and> p - hdr_size cfg \<notin> ls \<and>
                valid cfg s1 fs1 (insert (p - hdr_size cfg) ls) \<and>
                h_size s1 (p - hdr_size cfg) = quantas cfg (num * nb)"
       "pool_free_pos s \<le> pool_free_pos s1"
    by blast
  show ?thesis
  proof (cases "p = 0")
    case True
    then show ?thesis using a by (auto simp: memmgr_calloc_def Let_def m)
  next
    case False
    with a(2) have v1: "valid cfg s1 fs1 (insert (p - hdr_size cfg) ls)"
      and Hp: "hdr_size cfg \<le> p" and sz: "h_size s1 (p - hdr_size cfg) = quantas cfg (num * nb)"
      by auto
    have "num * nb \<le> (h_size s1 (p - hdr_size cfg) - 1) * hdr_size cfg"
      unfolding sz by (rule quantas_req(4) [OF ok rq])
    from valid_live_in_pool(1) [OF ok v1 _ this] Hp have "in_pool cfg p (num * nb)" by simp
    from memset_Some [OF this, of s1 0] obtain f where
      ms: "memset cfg s1 p 0 (num * nb) = Some (s1\<lparr>bytes := f\<rparr>)" by blast
    have "memmgr_calloc cfg s num nb = Some (s1\<lparr>bytes := f\<rparr>, p)"
      using False a(1) ms by (simp add: memmgr_calloc_def Let_def m)
    moreover have "valid cfg (s1\<lparr>bytes := f\<rparr>) fs1 (insert (p - hdr_size cfg) ls)"
      using v1 by simp
    ultimately show ?thesis using False a(3) by auto
  qed
qed

lemma step_valid:
  assumes ok: "cfg_ok cfg" and v: "valid cfg s fs ls" and st: "step cfg (s, ls) (s', ls')"
  shows "(\<exists>fs'. valid cfg s' fs' ls') \<and> pool_free_pos s \<le> pool_free_pos s'"
  using st
proof (cases rule: step.cases)
  case (s_write f)
  then show ?thesis using v by auto
next
  case (s_alloc n p)
  then have rq: "req_ok cfg n" by simp
  from memmgr_alloc_valid [OF ok v rq] s_alloc show ?thesis
    by (auto split: if_splits)
next
  case (s_free l)
  then have l: "l \<in> ls" by simp
  from memmgr_free_valid [OF ok v l] s_free show ?thesis by auto
next
  case s_free_null
  then show ?thesis using v by (auto simp: memmgr_free_def)
next
  case (s_realloc l n q)
  then have l: "l \<in> ls" and rq: "req_ok cfg n" by simp_all
  from memmgr_realloc_valid [OF ok v l rq] s_realloc show ?thesis by auto
next
  case (s_realloc_null n q)
  then have rq: "req_ok cfg n" by simp
  have "memmgr_realloc cfg s 0 n = memmgr_alloc cfg s n" by (simp add: memmgr_realloc_def)
  with memmgr_alloc_valid [OF ok v rq] s_realloc_null show ?thesis
    by (auto split: if_splits)
next
  case (s_calloc num nb p)
  then have rq: "req_ok cfg (num * nb)" by simp
  from memmgr_calloc_valid [OF ok v rq] s_calloc show ?thesis by auto
qed

lemma reach_valid:
  assumes ok: "cfg_ok cfg" and r: "reach cfg s ls"
  shows "\<exists>fs. valid cfg s fs ls"
  using r
proof (induction rule: reach.induct)
  case (r_init s)
  show ?case using valid_init by blast
next
  case (r_step s ls s' ls')
  then obtain fs where v: "valid cfg s fs ls" by blast
  from step_valid [OF ok v r_step(2)] show ?case by blast
qed




section \<open>memmgr\_alloc returns for every request\<close>

lemma take_block_nonnull:
  assumes "0 < hdr_size cfg"
  shows "snd (take_block cfg nq s prev x) \<noteq> 0"
  using assms by (simp add: take_block_def Let_def)

text \<open>
  A carve in a valid state, for any requested size: either it is refused and leaves the
  state alone, or the free list is again a ring and holds a block that is big enough.
\<close>

lemma get_mem_from_pool_total:
  assumes ok: "cfg_ok cfg" and v: "valid cfg s fs ls" and fz: "freep s \<noteq> 0"
    and nqb: "2 * nq \<le> INT_MOD"
  shows "get_mem_from_pool cfg s nq = Some (s, 0) \<or>
         (\<exists>s' fs'. get_mem_from_pool cfg s nq = Some (s', freep s') \<and> freep s' \<noteq> 0 \<and>
            chain (h_next s') (base cfg) (base cfg # fs') (base cfg) \<and>
            distinct (base cfg # fs') \<and> 0 \<notin> set (base cfg # fs') \<and>
            freep s' \<in> set (base cfg # fs') \<and> (\<exists>f \<in> set fs'. nq \<le> h_size s' f))"
proof -
  let ?H = "hdr_size cfg" and ?bs = "base cfg" and ?lo = "pool cfg" and ?PS = "POOL_SIZE cfg"
  let ?MQ = "MIN_POOL_ALLOC_QUANTAS cfg"
  let ?pos = "pool_free_pos s"
  define nq' where "nq' = (if nq < ?MQ then ?MQ else nq)"
  define tot where "tot = (nq' * ?H) mod INT_MOD"
  define h where "h = ?lo + ?pos"
  define s1 where "s1 = s\<lparr>h_size := (h_size s)(h := nq')\<rparr>"
  have H: "0 < ?H" "2 \<le> ?H" using ok by (auto simp: cfg_ok_def)
  from v fz have pb: "?pos \<le> ?PS"
    and fp: "freep s \<in> set (?bs # fs)" and sb: "h_size s ?bs = 0"
    and r: "ring ?bs ?lo (?lo + ?pos) (h_next s) (blk_end cfg s) fs ls"
    by (simp_all add: valid_nz)
  show ?thesis
  proof (cases "(?pos + tot) mod INT_MOD \<le> ?PS")
    case False
    then have "get_mem_from_pool cfg s nq = Some (s, 0)"
      unfolding get_mem_from_pool_def Let_def nq'_def [symmetric] tot_def [symmetric] by simp
    then show ?thesis by simp
  next
    case True
    have gm: "get_mem_from_pool cfg s nq =
        (case memmgr_free cfg s1 (h + ?H) of None \<Rightarrow> None
         | Some s2 \<Rightarrow> Some (s2\<lparr>pool_free_pos := (pool_free_pos s2 + tot) mod INT_MOD\<rparr>, freep s2))"
      unfolding get_mem_from_pool_def Let_def nq'_def [symmetric] tot_def [symmetric]
        h_def [symmetric] s1_def [symmetric]
      using True by simp
    have lim: "?lo + ?pos \<le> ?lo + ?PS" using pb by simp
    note out = cfg_ok_out [OF ok lim]
    have fb: "?lo \<le> f \<and> f < h \<and> f \<le> ?lo + ?pos" if "f \<in> set fs" for f
      using ring_free_blk [OF r that] by (simp add: h_def)
    have hnf: "h \<notin> set fs" using fb by auto
    have hnb: "h \<noteq> ?bs" using out by (auto simp: h_def)
    have bsn: "?bs \<notin> set fs" using ring_base_out [OF r out] by simp
    have d: "distinct (?bs # fs)" using ring_distinct [OF r] bsn by simp
    have z: "0 \<notin> set (?bs # fs)" using ring_nodes_nz [OF ok r] by blast
    have ch: "chain (h_next s) ?bs (?bs # fs) ?bs" by (rule ring_chain [OF r])
    define t where "t = last (?bs # fs)"
    have pos0: "0 < ?bs" "0 < ?lo" using ok by (auto simp: cfg_ok_def)
    have scan: "free_scan s1 h (freep s1) = Some t"
      unfolding t_def
    proof (rule free_scan_target [where lo = ?lo and hi = "?lo + ?pos" and ys = "[]"])
      show "chain (h_next s1) ?bs (?bs # fs @ []) ?bs" using ch by (simp add: s1_def)
      show "sorted_wrt (<) (fs @ [])" using ring_sorted [OF r] by simp
      show "\<forall>x \<in> set fs. x < h \<and> ?lo \<le> x \<and> x \<le> ?lo + ?pos" using fb by blast
      show "\<forall>y \<in> set []. h < y \<and> ?lo \<le> y \<and> y \<le> ?lo + ?pos" by simp
      show "?bs < ?lo \<or> ?lo + ?pos < ?bs" by (rule out)
      show "?lo \<le> h" "h \<le> ?lo + ?pos" by (simp_all add: h_def)
      show "0 < ?bs" "0 < ?lo" by (rule pos0)+
      show "freep s1 \<in> set (?bs # fs @ [])" using fp by (simp add: s1_def)
    qed
    have fr: "memmgr_free cfg s1 (h + ?H) = Some (free_link cfg s1 h t)"
      using H scan by (simp add: memmgr_free_def)
    have tin: "t \<in> set (?bs # fs)" unfolding t_def by (rule last_in_set) simp
    have tnh: "t \<noteq> h" using tin hnf hnb by auto
    have t0: "t \<noteq> 0" using tin z by metis
    have "chain (h_next s) ?bs ((?bs # fs) @ []) ?bs" using ch by simp
    from chain_last_next [OF this] have nt: "h_next s t = ?bs" by (simp add: t_def)
    have nt1: "h_next s1 t = ?bs" using nt by (simp add: s1_def)
    have st1: "h_size s1 t = h_size s t" using tnh by (simp add: s1_def)
    have eh: "blk_end cfg s1 h = h + nq' * ?H" by (simp add: blk_end_def s1_def)
    have up: "blk_end cfg s1 h \<noteq> h_next s1 t"
    proof (cases "?bs < ?lo")
      case True then show ?thesis unfolding eh nt1 by (simp add: h_def)
    next
      case False
      with ok have hi: "?lo + ?PS < ?bs" and bM: "?bs < INT_MOD" by (auto simp: cfg_ok_def)
      show ?thesis
      proof (cases "?pos + nq' * ?H \<le> ?PS")
        case True then show ?thesis unfolding eh nt1 using hi by (simp add: h_def)
      next
        case ov: False
        have "(?pos + tot) mod INT_MOD = (?pos + nq' * ?H) mod INT_MOD"
          unfolding tot_def by (simp add: mod_add_right_eq)
        with True ov have "INT_MOD \<le> ?pos + nq' * ?H"
          by (metis mod_less not_le_imp_less)
        then show ?thesis unfolding eh nt1 using bM by (simp add: h_def)
      qed
    qed
    define s2 where "s2 = free_link cfg s1 h t"
    define s' where "s' = s2\<lparr>pool_free_pos := (pool_free_pos s2 + tot) mod INT_MOD\<rparr>"
    have g: "get_mem_from_pool cfg s nq = Some (s', freep s2)"
      unfolding gm fr by (simp add: s'_def s2_def)
    define F where "F = butlast (?bs # fs)"
    have Ft: "?bs # fs = F @ [t]" unfolding F_def t_def by simp
    have "distinct ((?bs # fs) @ [h])" using d hnf hnb by simp
    then have dF: "distinct ((F @ [t]) @ [h])" by (simp only: Ft)
    have tF: "t \<notin> set F" and hF: "h \<notin> set F" using dF by auto
    have "chain (h_next s) ?bs ((?bs # fs) @ []) ?bs" using ch by simp
    then have "chain (h_next s) ?bs ((F @ [t]) @ []) ?bs" by (simp only: Ft)
    then have cF: "chain (h_next s) ?bs F t" by (simp add: chain_snoc)
    have nq'ge: "nq \<le> nq'" by (simp add: nq'_def)
    show ?thesis
    proof (cases "blk_end cfg s1 t = h")
      case low: True
      have tb: "t \<noteq> ?bs" using low sb hnb st1 by (auto simp: blk_end_def)
      then have tf: "t \<in> set fs" using tin by simp
      have "t + h_size s t * ?H \<le> ?lo + ?pos" "?lo \<le> t"
        using ring_free_blk [OF r tf] by (simp_all add: blk_end_def)
      then have szb: "h_size s t * ?H \<le> ?PS" using pb by linarith
      have nw: "h_size s t + nq' < INT_MOD"
      proof (cases "nq < ?MQ")
        case True
        have "h_size s t \<le> h_size s t * ?H" "?MQ \<le> ?MQ * ?H" using H(1) by simp_all
        then have "h_size s t + ?MQ \<le> ?MQ * ?H + ?PS" using szb by linarith
        moreover have "?MQ * ?H + ?PS < INT_MOD" using ok by (simp add: cfg_ok_def)
        ultimately show ?thesis using True by (simp add: nq'_def)
      next
        case False
        have "h_size s t * 2 \<le> h_size s t * ?H" by (rule mult_le_mono2 [OF H(2)])
        then have "2 * h_size s t \<le> ?PS" using szb by linarith
        moreover have "?PS < INT_MOD" using ok by (simp add: cfg_ok_def)
        moreover have "nq' = nq" using False by (simp add: nq'_def)
        ultimately show ?thesis using nqb by linarith
      qed
      have m: "(h_size s1 t + h_size s1 h) mod INT_MOD = h_size s t + nq'"
        using nw tnh by (simp add: s1_def)
      have s2e: "s2 = s1\<lparr>h_size := (h_size s1)(t := h_size s t + nq'),
                        h_next := (h_next s1)(h := ?bs, t := ?bs), freep := t\<rparr>"
        unfolding s2_def free_link_nl [OF up low tnh] m nt1 by simp
      have "chain ((h_next s)(h := ?bs, t := ?bs)) ?bs F t" using cF tF hF by (simp add: chain_upd)
      then have "chain ((h_next s)(h := ?bs, t := ?bs)) ?bs (F @ [t]) ?bs" by (simp add: chain_snoc)
      then have c': "chain (h_next s') ?bs (?bs # fs) ?bs"
        unfolding Ft [symmetric] by (simp add: s'_def s2e s1_def)
      have fit: "\<exists>f \<in> set fs. nq \<le> h_size s' f"
        using tf nq'ge by (intro bexI [of _ t]) (simp_all add: s'_def s2e)
      have "freep s' = t" "freep s2 = t" by (simp_all add: s'_def s2e)
      then have "get_mem_from_pool cfg s nq = Some (s', freep s') \<and> freep s' \<noteq> 0 \<and>
            chain (h_next s') ?bs (?bs # fs) ?bs \<and>
            distinct (?bs # fs) \<and> 0 \<notin> set (?bs # fs) \<and>
            freep s' \<in> set (?bs # fs) \<and> (\<exists>f \<in> set fs. nq \<le> h_size s' f)"
        using g t0 c' d z tin fit by simp
      then show ?thesis by blast
    next
      case nol: False
      have s2e: "s2 = s1\<lparr>h_next := (h_next s1)(h := ?bs, t := h), freep := t\<rparr>"
        unfolding s2_def free_link_nn [OF up nol tnh] nt1 by simp
      have "chain ((h_next s)(h := ?bs, t := h)) ?bs F t" using cF tF hF by (simp add: chain_upd)
      then have "chain ((h_next s)(h := ?bs, t := h)) ?bs ((F @ [t]) @ [h]) ?bs"
        using tnh by (auto simp: chain_append)
      then have "chain ((h_next s)(h := ?bs, t := h)) ?bs ((?bs # fs) @ [h]) ?bs"
        by (simp only: Ft)
      then have c': "chain (h_next s') ?bs (?bs # fs @ [h]) ?bs"
        by (simp add: s'_def s2e s1_def)
      have fit: "\<exists>f \<in> set (fs @ [h]). nq \<le> h_size s' f"
        using nq'ge by (intro bexI [of _ h]) (simp_all add: s'_def s2e s1_def)
      have h0: "h \<noteq> 0" using pos0 by (simp add: h_def)
      have "freep s' = t" "freep s2 = t" by (simp_all add: s'_def s2e)
      then have "get_mem_from_pool cfg s nq = Some (s', freep s') \<and> freep s' \<noteq> 0 \<and>
            chain (h_next s') ?bs (?bs # fs @ [h]) ?bs \<and>
            distinct (?bs # fs @ [h]) \<and> 0 \<notin> set (?bs # fs @ [h]) \<and>
            freep s' \<in> set (?bs # fs @ [h]) \<and> (\<exists>f \<in> set (fs @ [h]). nq \<le> h_size s' f)"
        using g t0 c' d z tin fit hnf hnb h0 by auto
      then show ?thesis by blast
    qed
  qed
qed


lemma alloc_loop_total:
  assumes ok: "cfg_ok cfg" and v: "valid cfg s fs ls" and fz: "freep s \<noteq> 0"
    and nqb: "2 * nq \<le> INT_MOD"
  shows "\<exists>s' p. alloc_loop cfg nq s (freep s) (h_next s (freep s)) = Some (s', p) \<and>
           (p = 0 \<longrightarrow> s' = s)"
proof -
  have H: "0 < hdr_size cfg" using ok by (rule cfg_ok_H)
  from valid_walk [OF ok v fz] obtain W where
    W: "chain (h_next s) (h_next s (freep s)) W (h_next s (freep s))" "W \<noteq> []" "0 \<notin> set W"
       "last W = freep s" "freep s \<notin> set (butlast W)" "set W = set (base cfg # fs)"
    by blast
  from alloc_walk [OF W(1-5) refl, of nq cfg]
  consider (fit) prev x where
        "alloc_loop cfg nq s (freep s) (h_next s (freep s)) = Some (take_block cfg nq s prev x)"
    | (carve)
        "alloc_loop cfg nq s (freep s) (h_next s (freep s)) =
            (case get_mem_from_pool cfg s nq of
               None \<Rightarrow> None
             | Some (s', p') \<Rightarrow>
                 if p' = 0 then Some (s', 0) else alloc_loop cfg nq s' p' (h_next s' p'))"
    by blast
  then show ?thesis
  proof cases
    case fit
    obtain s' p where tb: "take_block cfg nq s prev x = (s', p)" by (cases "take_block cfg nq s prev x")
    with take_block_nonnull [OF H, of nq s prev x] have "p \<noteq> 0" by simp
    then show ?thesis using fit tb by simp
  next
    case carve
    from get_mem_from_pool_total [OF ok v fz nqb]
    consider (fail) "get_mem_from_pool cfg s nq = Some (s, 0)"
      | (got) s1 fs1 where "get_mem_from_pool cfg s nq = Some (s1, freep s1)" "freep s1 \<noteq> 0"
          "chain (h_next s1) (base cfg) (base cfg # fs1) (base cfg)"
          "distinct (base cfg # fs1)" "0 \<notin> set (base cfg # fs1)"
          "freep s1 \<in> set (base cfg # fs1)" "\<exists>f \<in> set fs1. nq \<le> h_size s1 f"
      by blast
    then show ?thesis
    proof cases
      case fail
      then show ?thesis using carve by simp
    next
      case got
      have a1: "alloc_loop cfg nq s (freep s) (h_next s (freep s)) =
                alloc_loop cfg nq s1 (freep s1) (h_next s1 (freep s1))"
        using carve got(1,2) by simp
      from ring_rotate [OF got(3,4,6)] obtain W1 where
        W1: "chain (h_next s1) (h_next s1 (freep s1)) W1 (h_next s1 (freep s1))" "W1 \<noteq> []"
            "last W1 = freep s1" "freep s1 \<notin> set (butlast W1)" "set W1 = set (base cfg # fs1)"
        by blast
      have z1: "0 \<notin> set W1" using got(5) W1(5) by simp
      from got(7) obtain f0 where "f0 \<in> set fs1" "nq \<le> h_size s1 f0" by blast
      then have "f0 \<in> set W1" "nq \<le> h_size s1 f0" using W1(5) by auto
      then have "\<not> (\<forall>x \<in> set W1. h_size s1 x < nq)" by (meson not_less)
      with alloc_walk [OF W1(1,2) z1 W1(3,4) refl, of nq cfg] obtain prev x where
        fit: "alloc_loop cfg nq s1 (freep s1) (h_next s1 (freep s1)) = Some (take_block cfg nq s1 prev x)"
        by blast
      obtain s' p where tb: "take_block cfg nq s1 prev x = (s', p)"
        by (cases "take_block cfg nq s1 prev x")
      with take_block_nonnull [OF H, of nq s1 prev x] have "p \<noteq> 0" by simp
      then show ?thesis using a1 fit tb by simp
    qed
  qed
qed

lemma quantas_half: "2 \<le> hdr_size cfg \<Longrightarrow> 2 * quantas cfg n \<le> INT_MOD"
proof -
  assume H: "2 \<le> hdr_size cfg"
  define x where "x = (n + hdr_size cfg - 1) mod INT_MOD"
  have "x < INT_MOD" unfolding x_def by (simp add: INT_MOD_def)
  then have "x \<le> 2 ^ 64 - 1" by (simp add: INT_MOD_def)
  have "x div hdr_size cfg \<le> x div 2" using H by (rule div_le_mono2 [rotated]) simp
  also have "\<dots> \<le> (2 ^ 64 - 1) div 2" using \<open>x \<le> 2 ^ 64 - 1\<close> by (rule div_le_mono)
  finally have "x div hdr_size cfg + 1 \<le> 2 ^ 63" by simp
  moreover have "quantas cfg n \<le> x div hdr_size cfg + 1"
    unfolding quantas_def x_def by (rule mod_less_eq_dividend)
  ultimately show ?thesis by (simp add: INT_MOD_def)
qed

lemma memmgr_alloc_total:
  assumes ok: "cfg_ok cfg" and v: "valid cfg s fs ls"
  shows "\<exists>s' p. memmgr_alloc cfg s n = Some (s', p) \<and> (p = 0 \<and> freep s \<noteq> 0 \<longrightarrow> s' = s)"
proof -
  define nq where "nq = quantas cfg n"
  have H: "2 \<le> hdr_size cfg" using ok by (simp add: cfg_ok_def)
  have nqb: "2 * nq \<le> INT_MOD" unfolding nq_def by (rule quantas_half [OF H])
  define s1 where "s1 = (if freep s = 0
                then s\<lparr>h_next := (h_next s)(base cfg := base cfg),
                       h_size := (h_size s)(base cfg := 0),
                       freep := base cfg\<rparr>
                else s)"
  have ma: "memmgr_alloc cfg s n = alloc_loop cfg nq s1 (freep s1) (h_next s1 (freep s1))"
    by (simp add: memmgr_alloc_def Let_def nq_def s1_def)
  have v1: "valid cfg s1 fs ls \<and> freep s1 \<noteq> 0"
  proof (cases "freep s = 0")
    case True
    then have "s1 = s\<lparr>h_next := (h_next s)(base cfg := base cfg),
                       h_size := (h_size s)(base cfg := 0), freep := base cfg\<rparr>"
      by (simp add: s1_def)
    from valid_bootstrap [OF v True ok this] show ?thesis by simp
  next
    case False then show ?thesis using v by (simp add: s1_def)
  qed
  from alloc_loop_total [OF ok conjunct1 [OF v1] conjunct2 [OF v1] nqb] obtain s' p where
    "alloc_loop cfg nq s1 (freep s1) (h_next s1 (freep s1)) = Some (s', p)" "p = 0 \<longrightarrow> s' = s1"
    by blast
  then show ?thesis unfolding ma by (auto simp: s1_def)
qed

section \<open>The grow path of realloc\<close>

lemma chain_free_nodes:
  assumes "chain (h_next s) (h_next s a) W q" and "a \<in> free_nodes s"
  shows "set W \<subseteq> free_nodes s"
  using assms
proof (induction W arbitrary: a)
  case Nil then show ?case by simp
next
  case (Cons x xs)
  then have x: "h_next s a = x" and c: "chain (h_next s) (h_next s x) xs q" by auto
  have "x \<in> free_nodes s" using free_nodes.fn_step [OF Cons.prems(2)] x by simp
  with Cons.IH [OF c] show ?case by simp
qed

lemma ring_free_nodes:
  assumes ok: "cfg_ok cfg" and r: "ring (base cfg) (pool cfg) lim (h_next s) en fs ls"
    and lim: "lim \<le> pool cfg + POOL_SIZE cfg" and fp: "freep s \<in> set (base cfg # fs)"
  shows "set (base cfg # fs) \<subseteq> free_nodes s"
proof -
  have "base cfg \<notin> set fs" using ring_base_out [OF r cfg_ok_out [OF ok lim]] by simp
  then have d: "distinct (base cfg # fs)" using ring_distinct [OF r] by simp
  from ring_rotate [OF ring_chain [OF r] d fp] obtain W where
    W: "chain (h_next s) (h_next s (freep s)) W (h_next s (freep s))" "set W = set (base cfg # fs)"
    by blast
  have "freep s \<noteq> 0" using ring_nodes_nz [OF ok r fp] .
  then have "freep s \<in> free_nodes s" by (rule free_nodes.fn_start)
  from chain_free_nodes [OF W(1) this] W(2) show ?thesis by simp
qed

text \<open>
  A request that takes the grow path is longer than the payload of the old block, so the
  number of bytes copied is the old payload length whatever the request.
\<close>

lemma grow_len:
  assumes ok: "cfg_ok cfg" and sz: "1 \<le> sz" "sz * hdr_size cfg \<le> POOL_SIZE cfg"
    and grow: "sz < quantas cfg n"
  shows "(sz - 1) * hdr_size cfg \<le> n"
proof (rule ccontr)
  let ?H = "hdr_size cfg"
  assume "\<not> ?thesis"
  then have lt: "n < (sz - 1) * ?H" by simp
  have H: "0 < ?H" using ok by (rule cfg_ok_H)
  from sz(1) obtain m where m: "sz = Suc m" by (cases sz) auto
  have e: "(sz - 1) * ?H + ?H = sz * ?H" unfolding m by simp
  have "2 * ?H + POOL_SIZE cfg \<le> INT_MOD" using ok by (simp add: cfg_ok_def)
  then have "n + ?H - 1 < INT_MOD" using lt e sz(2) by linarith
  then have x: "(n + ?H - 1) mod INT_MOD = n + ?H - 1" by simp
  have "n + ?H - 1 < sz * ?H" using lt e H by linarith
  then have "(n + ?H - 1) div ?H < sz" using H by (simp add: div_less_iff_less_mult)
  then have "(n + ?H - 1) div ?H + 1 \<le> sz" by simp
  moreover have "quantas cfg n \<le> (n + ?H - 1) div ?H + 1"
    unfolding quantas_def x by (rule mod_less_eq_dividend)
  ultimately show False using grow by simp
qed

section \<open>The claims\<close>

lemma cfg0_ok: "cfg_ok cfg0"
  by (simp add: cfg_ok_def cfg0_def INT_MOD_def)

lemma cfg1_ok: "cfg_ok cfg1"
  by (simp add: cfg_ok_def cfg1_def INT_MOD_def)

lemma cfg_ok_req0: "cfg_ok cfg \<Longrightarrow> req_ok cfg 0"
  by (simp add: cfg_ok_def req_ok_def)

lemma quantas_le: "quantas cfg n \<le> (n + hdr_size cfg - 1) div hdr_size cfg + 1"
proof -
  have "(n + hdr_size cfg - 1) mod INT_MOD div hdr_size cfg
          \<le> (n + hdr_size cfg - 1) div hdr_size cfg"
    by (rule div_le_mono) simp
  then show ?thesis unfolding quantas_def
    by (meson add_le_mono1 le_trans mod_less_eq_dividend)
qed

lemmas scen_simps =
  run_simps cfg0_def cfg1_def mem0_def ends_with_def returns_def pos_is_def size_is_def

lemma has_adjacent_iff: "has_adjacent cfg s \<longleftrightarrow> \<not> no_adjacent cfg s"
  by (auto simp: has_adjacent_def no_adjacent_def)



text \<open>The first allocation of one byte in the example build, as a step of a history.\<close>

lemma first_alloc0:
  "\<exists>S. memmgr_alloc cfg0 (memmgr_init cfg0 mem0) 1 = Some (S, 4144) \<and>
       step cfg0 (memmgr_init cfg0 mem0, {}) (S, {4128}) \<and> reach cfg0 S {4128}"
proof -
  have "\<exists>S. memmgr_alloc cfg0 (memmgr_init cfg0 mem0) 1 = Some (S, 4144)"
    by (simp add: scen_simps)
  then obtain S where a: "memmgr_alloc cfg0 (memmgr_init cfg0 mem0) 1 = Some (S, 4144)" ..
  have rq: "req_ok cfg0 1" by (simp add: req_ok_def cfg0_def INT_MOD_def)
  have "step cfg0 (memmgr_init cfg0 mem0, {})
          (S, if (4144::nat) = 0 then {} else insert (4144 - hdr_size cfg0) {})"
    by (rule s_alloc [OF rq a])
  then have st: "step cfg0 (memmgr_init cfg0 mem0, {}) (S, {4128})" by (simp add: cfg0_def)
  have "reach cfg0 S {4128}" by (rule r_step [OF r_init st])
  with a st show ?thesis by blast
qed




text \<open>
  Claim C2 (pool cursor), as the claim states it, fails in its last part: a request whose
  carve size wraps around passes the bounds test of \<open>get_mem_from_pool\<close> and moves the
  cursor backwards, here from 64 to 48.
\<close>

theorem cursor_counterexample:
  "ends_with (pos_is 64) (run cfg0 [Init, Alloc 1] (mem0, [])) \<and>
   ends_with (pos_is 48) (run cfg0 [Init, Alloc 1, Alloc (2 ^ 64 - 32)] (mem0, []))"
  by (simp add: scen_simps)

text \<open>
  Claim C2, amended.  In every state reached from an initialisation by public calls whose
  requested sizes do not wrap around (see C1), the pool cursor is at most \<open>POOL_SIZE\<close>
  and a multiple of the header size, and no further such call moves it backwards.
\<close>

theorem cursor_invariant:
  assumes "cfg_ok cfg" and "reach cfg s ls"
  shows "pool_free_pos s \<le> POOL_SIZE cfg \<and> hdr_size cfg dvd pool_free_pos s \<and>
         (\<forall>s' ls'. step cfg (s, ls) (s', ls') \<longrightarrow> pool_free_pos s \<le> pool_free_pos s')"
proof -
  from reach_valid [OF assms] obtain fs where v: "valid cfg s fs ls" ..
  then have "pool_free_pos s \<le> POOL_SIZE cfg" "hdr_size cfg dvd pool_free_pos s"
    by (simp_all add: valid_def)
  moreover have "pool_free_pos s \<le> pool_free_pos s'" if "step cfg (s, ls) (s', ls')" for s' ls'
    using step_valid [OF assms(1) v that] by simp
  ultimately show ?thesis by blast
qed

theorem cursor_invariant_witness:
  "\<exists>S. step cfg0 (memmgr_init cfg0 mem0, {}) (S, {4128}) \<and>
       pool_free_pos (memmgr_init cfg0 mem0) \<le> pool_free_pos S \<and>
       pool_free_pos S \<le> POOL_SIZE cfg0 \<and> hdr_size cfg0 dvd pool_free_pos S"
proof -
  from first_alloc0 obtain S where
    st: "step cfg0 (memmgr_init cfg0 mem0, {}) (S, {4128})" and r: "reach cfg0 S {4128}"
    by blast
  from cursor_invariant [OF cfg0_ok r_init, of mem0] st
  have "pool_free_pos (memmgr_init cfg0 mem0) \<le> pool_free_pos S" by blast
  with cursor_invariant [OF cfg0_ok r] st show ?thesis by blast
qed

text \<open>
  Claim C3 (zero-byte allocation), as the claim states it, fails in its last part: the
  block that \<open>alloc(0)\<close> hands out has size one, the header alone, so the returned
  pointer has no payload at all.  Here the pointer is 4160 and the size field of its
  header at 4144 is 1.
\<close>

theorem zero_alloc_counterexample:
  "returns [4160] (run cfg0 [Init, Alloc 0] (mem0, [])) \<and>
   ends_with (size_is 4144 1) (run cfg0 [Init, Alloc 0] (mem0, []))"
  by (simp add: scen_simps)

text \<open>
  Claim C3, amended.  In a state that satisfies the invariants, \<open>alloc(0)\<close> succeeds
  whenever the free list holds a block or the pool has room for a minimal carve; the
  pointer it returns differs from every live pointer, and the block it consumes is
  exactly one quantum, the header alone, with zero bytes of payload.
\<close>

theorem zero_alloc:
  assumes ok: "cfg_ok cfg" and v: "valid cfg s fs ls"
    and room: "fs \<noteq> [] \<or>
      pool_free_pos s + max 1 (MIN_POOL_ALLOC_QUANTAS cfg) * hdr_size cfg \<le> POOL_SIZE cfg"
  shows "\<exists>s' p fs'. memmgr_alloc cfg s 0 = Some (s', p) \<and> p \<noteq> 0 \<and>
           (\<forall>l \<in> ls. p \<noteq> l + hdr_size cfg) \<and> h_size s' (p - hdr_size cfg) = 1 \<and>
           valid cfg s' fs' (insert (p - hdr_size cfg) ls)"
proof -
  have H: "0 < hdr_size cfg" using ok by (rule cfg_ok_H)
  have rq: "req_ok cfg 0" using ok by (rule cfg_ok_req0)
  have q: "quantas cfg 0 = 1" using quantas_req(1) [OF ok rq] H by simp
  from memmgr_alloc_valid [OF ok v rq] obtain s' p fs' where
    a: "memmgr_alloc cfg s 0 = Some (s', p)"
       "if p = 0 then valid cfg s' fs' ls \<and> (freep s \<noteq> 0 \<longrightarrow> s' = s) \<and>
                (\<forall>f \<in> set fs. h_size s f < quantas cfg 0) \<and>
                POOL_SIZE cfg < pool_free_pos s +
                   max (quantas cfg 0) (MIN_POOL_ALLOC_QUANTAS cfg) * hdr_size cfg
           else hdr_size cfg \<le> p \<and> p - hdr_size cfg \<notin> ls \<and>
                valid cfg s' fs' (insert (p - hdr_size cfg) ls) \<and>
                h_size s' (p - hdr_size cfg) = quantas cfg 0"
    by blast
  have p: "p \<noteq> 0"
  proof
    assume p0: "p = 0"
    with a(2) q have small: "\<forall>f \<in> set fs. h_size s f < 1"
      and full: "POOL_SIZE cfg < pool_free_pos s + max 1 (MIN_POOL_ALLOC_QUANTAS cfg) * hdr_size cfg"
      by simp_all
    have "fs = []"
    proof (rule ccontr)
      assume "fs \<noteq> []"
      then obtain f where f: "f \<in> set fs" by (cases fs) auto
      then have fz: "freep s \<noteq> 0" using v by (auto simp: valid_def split: if_splits)
      with v have "ring (base cfg) (pool cfg) (pool cfg + pool_free_pos s) (h_next s)
                     (blk_end cfg s) fs ls" by (simp add: valid_nz)
      from ring_free_blk [OF this f] have "f < f + h_size s f * hdr_size cfg"
        by (simp add: blk_end_def)
      then have "0 < h_size s f" by (cases "h_size s f") auto
      with small f show False by auto
    qed
    with room full show False by simp
  qed
  with a(2) q have r: "hdr_size cfg \<le> p" "p - hdr_size cfg \<notin> ls"
    "valid cfg s' fs' (insert (p - hdr_size cfg) ls)" "h_size s' (p - hdr_size cfg) = 1"
    by simp_all
  have "\<forall>l \<in> ls. p \<noteq> l + hdr_size cfg" using r(1,2) by auto
  with a(1) p r show ?thesis by blast
qed

theorem zero_alloc_witness:
  "\<exists>s' p fs'. memmgr_alloc cfg0 (memmgr_init cfg0 mem0) 0 = Some (s', p) \<and> p \<noteq> 0 \<and>
      h_size s' (p - hdr_size cfg0) = 1 \<and> valid cfg0 s' fs' (insert (p - hdr_size cfg0) {})"
proof -
  have "[] \<noteq> ([]::nat list) \<or>
      pool_free_pos (memmgr_init cfg0 mem0) + max 1 (MIN_POOL_ALLOC_QUANTAS cfg0) * hdr_size cfg0
        \<le> POOL_SIZE cfg0"
    by (simp add: cfg0_def memmgr_init_def)
  from zero_alloc [OF cfg0_ok valid_init this] show ?thesis by blast
qed

text \<open>
  Claim C4 (calloc overflow), as the claim states it, fails: \<open>memmgr_calloc\<close> does not
  check the product.  For \<open>2^63\<close> elements of 2 bytes the product wraps around to 0,
  and the call returns the pointer 4160 and moves the pool cursor to 64.
\<close>

theorem calloc_overflow_counterexample:
  "INT_MOD \<le> 2 ^ 63 * 2 \<and>
   returns [4160] (run cfg0 [Init, Calloc (2 ^ 63) 2] (mem0, [])) \<and>
   ends_with (pos_is 64) (run cfg0 [Init, Calloc (2 ^ 63) 2] (mem0, []))"
  by (simp add: scen_simps)

text \<open>
  Claim C4, amended.  \<open>memmgr_calloc\<close> does not detect an overflow of
  \<open>count * nbytes\<close>: it works with the product reduced modulo \<open>2^64\<close>.  Whenever the
  reduced product \<open>n\<close> is small enough for the size arithmetic
  (\<open>n + 2 * H + POOL_SIZE \<le> 2^64\<close>), in a state that satisfies the invariants the call
  returns the pointer that \<open>memmgr_alloc\<close> returns for \<open>n\<close> bytes.  If that pointer is
  null the state is the one the allocation left, which is the state before the call
  provided the free list had been set up by an earlier allocation; otherwise the \<open>n\<close>
  bytes from the pointer are zero, and they fit the payload of the block.
\<close>

theorem calloc_wraps:
  assumes ok: "cfg_ok cfg" and v: "valid cfg s fs ls"
    and rq: "req_ok cfg ((num * nb) mod INT_MOD)"
  shows "\<exists>s1 p s'. memmgr_alloc cfg s ((num * nb) mod INT_MOD) = Some (s1, p) \<and>
           memmgr_calloc cfg s num nb = Some (s', p) \<and>
           (if p = 0 then s' = s1 \<and> (freep s \<noteq> 0 \<longrightarrow> s1 = s)
            else memset cfg s1 p 0 ((num * nb) mod INT_MOD) = Some s' \<and>
                 (num * nb) mod INT_MOD \<le> (h_size s1 (p - hdr_size cfg) - 1) * hdr_size cfg \<and>
                 (\<forall>i < (num * nb) mod INT_MOD. bytes s' (p + i) = 0))"
proof -
  let ?H = "hdr_size cfg"
  define n where "n = (num * nb) mod INT_MOD"
  have rq': "req_ok cfg n" using rq by (simp add: n_def)
  from memmgr_alloc_valid [OF ok v rq'] obtain s1 p fs1 where
    a: "memmgr_alloc cfg s n = Some (s1, p)"
       "if p = 0 then valid cfg s1 fs1 ls \<and> (freep s \<noteq> 0 \<longrightarrow> s1 = s) \<and>
                (\<forall>f \<in> set fs. h_size s f < quantas cfg n) \<and>
                POOL_SIZE cfg < pool_free_pos s +
                   max (quantas cfg n) (MIN_POOL_ALLOC_QUANTAS cfg) * hdr_size cfg
           else hdr_size cfg \<le> p \<and> p - hdr_size cfg \<notin> ls \<and>
                valid cfg s1 fs1 (insert (p - hdr_size cfg) ls) \<and>
                h_size s1 (p - hdr_size cfg) = quantas cfg n"
    by blast
  have "\<exists>s'. memmgr_calloc cfg s num nb = Some (s', p) \<and>
           (if p = 0 then s' = s1 \<and> (freep s \<noteq> 0 \<longrightarrow> s1 = s)
            else memset cfg s1 p 0 n = Some s' \<and> n \<le> (h_size s1 (p - ?H) - 1) * ?H \<and>
                 (\<forall>i < n. bytes s' (p + i) = 0))"
  proof (cases "p = 0")
    case True
    then have "memmgr_calloc cfg s num nb = Some (s1, p)"
      using a(1) by (simp add: memmgr_calloc_def Let_def n_def)
    then show ?thesis using True a(2) by simp
  next
    case False
    with a(2) have v1: "valid cfg s1 fs1 (insert (p - ?H) ls)"
      and Hp: "?H \<le> p" and sz: "h_size s1 (p - ?H) = quantas cfg n"
      by auto
    have fit: "n \<le> (h_size s1 (p - ?H) - 1) * ?H"
      unfolding sz by (rule quantas_req(4) [OF ok rq'])
    from valid_live_in_pool(1) [OF ok v1 _ fit] Hp have "in_pool cfg p n" by simp
    from memset_Some [OF this, of s1 0] obtain f where
      ms: "memset cfg s1 p 0 n = Some (s1\<lparr>bytes := f\<rparr>)" and z: "\<forall>i < n. f (p + i) = 0"
      by blast
    have "memmgr_calloc cfg s num nb = Some (s1\<lparr>bytes := f\<rparr>, p)"
      using False a(1) ms by (simp add: memmgr_calloc_def Let_def n_def)
    then show ?thesis using False ms fit z by simp
  qed
  with a(1) show ?thesis unfolding n_def by blast
qed

theorem calloc_wraps_witness:
  "\<exists>s1 p s'. memmgr_alloc cfg0 (memmgr_init cfg0 mem0) ((2 ^ 63 * 2) mod INT_MOD) = Some (s1, p) \<and>
      memmgr_calloc cfg0 (memmgr_init cfg0 mem0) (2 ^ 63) 2 = Some (s', p) \<and>
      (if p = 0 then s' = s1 \<and> (freep (memmgr_init cfg0 mem0) \<noteq> 0 \<longrightarrow> s1 = memmgr_init cfg0 mem0)
       else memset cfg0 s1 p 0 ((2 ^ 63 * 2) mod INT_MOD) = Some s' \<and>
            (2 ^ 63 * 2) mod INT_MOD \<le> (h_size s1 (p - hdr_size cfg0) - 1) * hdr_size cfg0 \<and>
            (\<forall>i < (2 ^ 63 * 2) mod INT_MOD. bytes s' (p + i) = 0))"
proof -
  have rq: "req_ok cfg0 ((2 ^ 63 * 2) mod INT_MOD)"
    by (simp add: req_ok_def cfg0_def INT_MOD_def)
  show ?thesis by (rule calloc_wraps [OF cfg0_ok valid_init rq])
qed

text \<open>
  Claim C5 (realloc, shrink in place).  For a non-null pointer \<open>ap\<close> and a byte count
  \<open>nbytes > 0\<close> whose quantized size \<open>(nbytes + H - 1) div H + 1\<close> is at most the size
  field of the block's header, \<open>memmgr_realloc\<close> returns \<open>ap\<close> itself and the whole
  state (free list, pool cursor, headers, bytes) is unchanged.
\<close>

theorem realloc_shrink_in_place:
  assumes "ap \<noteq> 0" and "0 < nbytes"
    and "(nbytes + hdr_size cfg - 1) div hdr_size cfg + 1 \<le> h_size s (ap - hdr_size cfg)"
  shows "memmgr_realloc cfg s ap nbytes = Some (s, ap)"
  using assms quantas_le [of cfg nbytes] by (simp add: memmgr_realloc_def Let_def)

theorem realloc_shrink_in_place_witness:
  "memmgr_realloc cfg0 (mem0\<lparr>h_size := (h_size mem0)(4096 := 3)\<rparr>) 4112 20
     = Some (mem0\<lparr>h_size := (h_size mem0)(4096 := 3)\<rparr>, 4112)"
  by (rule realloc_shrink_in_place) (simp_all add: cfg0_def)

text \<open>
  Claim C6 (realloc, grow path), as the claim states it, fails for a request so large that
  the carve size wraps around.  With the sentinel one header behind the pool: after
  \<open>alloc(1008)\<close> has taken the whole pool as a block of 64 quantas at 4096, the request
  \<open>2^64 - 16\<close> quantizes to \<open>2^60\<close> quantas, its carve size wraps around to 0 and passes
  the bounds test with the pool full, and \<open>memmgr_alloc\<close> returns 5136, a pointer behind
  the end of the pool (it is the address of the sentinel).  So the fresh allocation
  succeeds, but \<open>memmgr_realloc\<close> then copies 1008 bytes to a range outside the pool
  array, and the call has no result.
\<close>

theorem realloc_grow_counterexample:
  "returns [4112] (run cfg2 [Init, Alloc 1008] (mem0, [])) \<and>
   ends_with (size_is 4096 64) (run cfg2 [Init, Alloc 1008] (mem0, [])) \<and>
   quantas cfg2 (2 ^ 64 - 16) = 2 ^ 60 \<and>
   returns [4112, 5136] (run cfg2 [Init, Alloc 1008, Alloc (2 ^ 64 - 16)] (mem0, [])) \<and>
   base cfg2 = 5136 \<and> pool cfg2 + POOL_SIZE cfg2 = 5120 \<and>
   run cfg2 [Init, Alloc 1008, Realloc 0 (2 ^ 64 - 16)] (mem0, []) = None"
  by (simp add: scen_simps cfg2_def)

text \<open>
  Claim C6, amended.  For a live block with header \<open>l\<close> and a byte count \<open>nbytes\<close> that
  is small enough for the size arithmetic (\<open>nbytes + 2 * H + POOL_SIZE \<le> 2^64\<close>) and whose
  quantized size exceeds the size field of that header: if the allocation inside
  \<open>memmgr_realloc\<close> returns a non-null pointer \<open>q\<close>, then \<open>memmgr_realloc\<close> returns
  \<open>q\<close>, the first \<open>min nbytes ((size - 1) * H)\<close> bytes at \<open>q\<close> are the bytes the old
  payload held before the call, the new block is larger than the old one, and the old
  block has been freed: it lies inside a block of the free list.
\<close>

theorem realloc_grow_copies:
  assumes ok: "cfg_ok cfg" and v: "valid cfg s fs ls" and l: "l \<in> ls"
    and rq: "req_ok cfg nbytes" and grow: "h_size s l < quantas cfg nbytes"
    and al: "memmgr_alloc cfg s nbytes = Some (s1, q)" and q: "q \<noteq> 0"
  shows "\<exists>s'. memmgr_realloc cfg s (l + hdr_size cfg) nbytes = Some (s', q) \<and>
           (\<forall>i < min nbytes ((h_size s l - 1) * hdr_size cfg).
               bytes s' (q + i) = bytes s (l + hdr_size cfg + i)) \<and>
           h_size s l < h_size s' (q - hdr_size cfg) \<and>
           (\<exists>f \<in> free_nodes s'. f \<le> l \<and> blk_end cfg s l \<le> blk_end cfg s' f)"
proof -
  let ?H = "hdr_size cfg"
  have H: "0 < ?H" using ok by (rule cfg_ok_H)
  note lv = valid_live_size [OF ok v l]
  have "quantas cfg 0 \<le> (0 + ?H - 1) div ?H + 1" by (rule quantas_le)
  then have "quantas cfg 0 \<le> 1" using H by simp
  with grow lv(1) have "nbytes \<noteq> 0" by (cases "nbytes = 0") auto
  then have n: "0 < nbytes" by simp
  have "(h_size s l - 1) * ?H \<le> nbytes" by (rule grow_len [OF ok lv(1,2) grow])
  then have mn: "min nbytes ((h_size s l - 1) * ?H) = (h_size s l - 1) * ?H" by simp
  from memmgr_alloc_valid [OF ok v rq] al q obtain fs1 where
    a: "?H \<le> q" "q - ?H \<notin> ls" "valid cfg s1 fs1 (insert (q - ?H) ls)"
       "h_size s1 (q - ?H) = quantas cfg nbytes" "bytes s1 = bytes s"
       "\<forall>l \<in> ls. h_size s1 l = h_size s l"
    by auto
  have sz: "h_size s1 l = h_size s l" using a(6) l by simp
  from memmgr_realloc_grow [OF ok v l n grow al q a(3,2,5) sz a(1,4)] obtain s' fs' where
    r: "memmgr_realloc cfg s (l + ?H) nbytes = Some (s', q)"
       "valid cfg s' fs' (insert (q - ?H) (ls - {l}))"
       "\<forall>i < (h_size s l - 1) * ?H. bytes s' (q + i) = bytes s (l + ?H + i)"
       "\<exists>f \<in> set fs'. f \<le> l \<and> blk_end cfg s l \<le> blk_end cfg s' f"
       "h_size s' (q - ?H) = h_size s1 (q - ?H)" "freep s' \<in> set (base cfg # fs')"
    by blast
  have "q - ?H \<in> insert (q - ?H) (ls - {l})" by simp
  from valid_live_size(4) [OF ok r(2) this] have fz: "freep s' \<noteq> 0" .
  from r(2) fz have pb: "pool_free_pos s' \<le> POOL_SIZE cfg"
    and rg: "ring (base cfg) (pool cfg) (pool cfg + pool_free_pos s') (h_next s')
               (blk_end cfg s') fs' (insert (q - ?H) (ls - {l}))"
    by (simp_all add: valid_nz)
  have "pool cfg + pool_free_pos s' \<le> pool cfg + POOL_SIZE cfg" using pb by simp
  from ring_free_nodes [OF ok rg this r(6)] r(4)
  have "\<exists>f \<in> free_nodes s'. f \<le> l \<and> blk_end cfg s l \<le> blk_end cfg s' f" by auto
  moreover have "h_size s l < h_size s' (q - ?H)" unfolding r(5) a(4) by (rule grow)
  ultimately show ?thesis using r(1,3) unfolding mn by blast
qed

theorem realloc_grow_copies_witness:
  "\<exists>S S1 S'. memmgr_alloc cfg0 (memmgr_init cfg0 mem0) 1 = Some (S, 4144) \<and>
       memmgr_alloc cfg0 S 100 = Some (S1, 4176) \<and>
       memmgr_realloc cfg0 S 4144 100 = Some (S', 4176) \<and>
       bytes S' 4176 = bytes S 4144 \<and> bytes S' 4191 = bytes S 4159"
proof -
  have "\<exists>S S1. memmgr_alloc cfg0 (memmgr_init cfg0 mem0) 1 = Some (S, 4144) \<and>
          memmgr_alloc cfg0 S 100 = Some (S1, 4176) \<and> h_size S 4128 = 2"
    by (simp add: scen_simps)
  then obtain S S1 where a: "memmgr_alloc cfg0 (memmgr_init cfg0 mem0) 1 = Some (S, 4144)"
    and a1: "memmgr_alloc cfg0 S 100 = Some (S1, 4176)" and sz: "h_size S 4128 = 2" by blast
  have rq: "req_ok cfg0 1" by (simp add: req_ok_def cfg0_def INT_MOD_def)
  have "step cfg0 (memmgr_init cfg0 mem0, {})
          (S, if (4144::nat) = 0 then {} else insert (4144 - hdr_size cfg0) {})"
    by (rule s_alloc [OF rq a])
  then have st: "step cfg0 (memmgr_init cfg0 mem0, {}) (S, {4128})" by (simp add: cfg0_def)
  have "reach cfg0 S {4128}" by (rule r_step [OF r_init st])
  from reach_valid [OF cfg0_ok this] obtain fs where v: "valid cfg0 S fs {4128}" ..
  have g: "h_size S 4128 < quantas cfg0 100"
    by (simp add: sz quantas_def cfg0_def INT_MOD_def)
  have rq1: "req_ok cfg0 100" by (simp add: req_ok_def cfg0_def INT_MOD_def)
  have "\<exists>s'. memmgr_realloc cfg0 S (4128 + hdr_size cfg0) 100 = Some (s', 4176) \<and>
           (\<forall>i < min 100 ((h_size S 4128 - 1) * hdr_size cfg0).
               bytes s' (4176 + i) = bytes S (4128 + hdr_size cfg0 + i)) \<and>
           h_size S 4128 < h_size s' (4176 - hdr_size cfg0) \<and>
           (\<exists>f \<in> free_nodes s'. f \<le> 4128 \<and> blk_end cfg0 S 4128 \<le> blk_end cfg0 s' f)"
    by (rule realloc_grow_copies [OF cfg0_ok v _ rq1 g a1]) simp_all
  then obtain S' where r: "memmgr_realloc cfg0 S 4144 100 = Some (S', 4176)"
    and c: "\<forall>i < 16. bytes S' (4176 + i) = bytes S (4144 + i)"
    by (auto simp: sz cfg0_def)
  have "bytes S' 4176 = bytes S 4144" using c [rule_format, of 0] by simp
  moreover have "bytes S' 4191 = bytes S 4159" using c [rule_format, of 15] by simp
  ultimately have "bytes S' 4176 = bytes S 4144" "bytes S' 4191 = bytes S 4159" by simp_all
  with a a1 r show ?thesis by blast
qed

text \<open>
  Claim C7 (realloc, failure of the fresh allocation).  For a live block and a byte count
  \<open>nbytes > 0\<close> for which \<open>memmgr_realloc\<close> takes the grow path, if the allocation
  inside it returns null then \<open>memmgr_realloc\<close> returns null and the state is the one
  before the call: the old block is still live, with its header and its bytes, and it
  has not been freed.
\<close>

theorem realloc_failure_atomic:
  assumes ok: "cfg_ok cfg" and v: "valid cfg s fs ls" and l: "l \<in> ls"
    and n: "0 < nbytes" and grow: "h_size s l < quantas cfg nbytes"
    and fail: "memmgr_alloc cfg s nbytes = Some (s1, 0)"
  shows "memmgr_realloc cfg s (l + hdr_size cfg) nbytes = Some (s, 0)"
proof -
  have H: "0 < hdr_size cfg" using ok by (rule cfg_ok_H)
  have fz: "freep s \<noteq> 0" using valid_live_size(4) [OF ok v l] .
  from memmgr_alloc_total [OF ok v, of nbytes] fail fz have "s1 = s" by auto
  then show ?thesis using H n grow fail by (simp add: memmgr_realloc_def Let_def)
qed

theorem realloc_failure_atomic_witness:
  "\<exists>S. memmgr_alloc cfg1 (memmgr_init cfg1 mem0) 1 = Some (S, 4144) \<and>
       memmgr_alloc cfg1 S 100 = Some (S, 0) \<and>
       memmgr_realloc cfg1 S (4128 + hdr_size cfg1) 100 = Some (S, 0)"
proof -
  have "\<exists>S. memmgr_alloc cfg1 (memmgr_init cfg1 mem0) 1 = Some (S, 4144) \<and>
          memmgr_alloc cfg1 S 100 = Some (S, 0) \<and> h_size S 4128 = 2"
    by (simp add: scen_simps)
  then obtain S where a: "memmgr_alloc cfg1 (memmgr_init cfg1 mem0) 1 = Some (S, 4144)"
    and f: "memmgr_alloc cfg1 S 100 = Some (S, 0)" and sz: "h_size S 4128 = 2" by blast
  have rq: "req_ok cfg1 1" by (simp add: req_ok_def cfg1_def INT_MOD_def)
  have "step cfg1 (memmgr_init cfg1 mem0, {})
          (S, if (4144::nat) = 0 then {} else insert (4144 - hdr_size cfg1) {})"
    by (rule s_alloc [OF rq a])
  then have st: "step cfg1 (memmgr_init cfg1 mem0, {}) (S, {4128})" by (simp add: cfg1_def)
  have "reach cfg1 S {4128}" by (rule r_step [OF r_init st])
  from reach_valid [OF cfg1_ok this] obtain fs where v: "valid cfg1 S fs {4128}" ..
  have g: "h_size S 4128 < quantas cfg1 100"
    by (simp add: sz quantas_def cfg1_def INT_MOD_def)
  have "memmgr_realloc cfg1 S (4128 + hdr_size cfg1) 100 = Some (S, 0)"
    by (rule realloc_failure_atomic [OF cfg1_ok v _ _ g f]) simp_all
  with a f show ?thesis by blast
qed

text \<open>
  Claim C8 (immediate reuse).  For any header size, with a pool of 64 headers and a
  minimal carve of 4 quantas, the calls init, \<open>p1 = alloc(1)\<close>, \<open>free(p1)\<close>,
  \<open>p2 = alloc(1)\<close> all return, and \<open>p1\<close> and \<open>p2\<close> are the same non-null pointer (the
  fourth header of the pool), whatever the memory held before.
\<close>

theorem immediate_reuse:
  assumes ok: "cfg_ok cfg" and ps: "POOL_SIZE cfg = 64 * hdr_size cfg"
    and mq: "MIN_POOL_ALLOC_QUANTAS cfg = 4"
  shows "\<exists>s' p. run cfg [Init, Alloc 1, Free 0, Alloc 1] (s, []) = Some (s', [p, p]) \<and> p \<noteq> 0"
proof -
  define H where "H = hdr_size cfg"
  define P where "P = pool cfg"
  define B where "B = base cfg"
  have H: "2 \<le> H" "0 < P" "0 < B" "B + H \<le> P \<or> P + 64 * H < B" "4 * H + 64 * H < INT_MOD"
    using ok ps mq by (auto simp: cfg_ok_def H_def P_def B_def)
  have rq: "req_ok cfg 1" using H(5) H(1) ps by (simp add: req_ok_def H_def)
  have q: "quantas cfg 1 = 2" using quantas_req(1) [OF ok rq] H(1) by (simp add: H_def)
  have m: "(4 * H) mod INT_MOD = 4 * H" "(4 * H + 0) mod INT_MOD = 4 * H" using H(5) by simp_all
  note ev = free_scan_null free_scan_hit1 free_scan_hit2 free_scan_step
    alloc_loop_null alloc_loop_fit alloc_loop_carve alloc_loop_step take_block_def
    memmgr_alloc_def memmgr_free_def get_mem_from_pool_def free_link_def
    Let_def memmgr_init_def
  have "\<exists>s'. run cfg [Init, Alloc 1, Free 0, Alloc 1] (s, []) = Some (s', [P + 3 * H, P + 3 * H])"
    using H(4)
  proof
    assume lo: "B + H \<le> P"
    show ?thesis
      using H(1,2,3,5) lo
      by (simp add: ev q ps mq m H_def [symmetric] P_def [symmetric] B_def [symmetric]
            del: One_nat_def)
  next
    assume hi: "P + 64 * H < B"
    show ?thesis
      using H(1,2,3,5) hi
      by (simp add: ev q ps mq m H_def [symmetric] P_def [symmetric] B_def [symmetric]
            del: One_nat_def)
  qed
  moreover have "P + 3 * H \<noteq> 0" using H(2) by simp
  ultimately show ?thesis by blast
qed

theorem immediate_reuse_witness:
  "\<exists>s' p. run cfg0 [Init, Alloc 1, Free 0, Alloc 1] (mem0, []) = Some (s', [p, p]) \<and> p \<noteq> 0"
  by (rule immediate_reuse [OF cfg0_ok]) (simp_all add: cfg0_def)



text \<open>
  Claim C10 (frame of init).  \<open>memmgr_init\<close> leaves every byte unchanged, and the
  header fields stored at any address inside the pool region as well, since the sentinel
  lies outside the pool; calling it a second time changes nothing more.  What it resets
  are the sentinel's two fields, \<open>freep\<close> and \<open>pool_free_pos\<close>.
\<close>

theorem memmgr_init_frame:
  assumes "cfg_ok cfg" and "pool cfg \<le> a" and "a < pool cfg + POOL_SIZE cfg"
  shows "bytes (memmgr_init cfg s) = bytes s \<and>
         h_next (memmgr_init cfg s) a = h_next s a \<and>
         h_size (memmgr_init cfg s) a = h_size s a \<and>
         memmgr_init cfg s =
           s\<lparr>h_next := (h_next s)(base cfg := 0), h_size := (h_size s)(base cfg := 0),
             freep := 0, pool_free_pos := 0\<rparr> \<and>
         memmgr_init cfg (memmgr_init cfg s) = memmgr_init cfg s"
  using assms by (auto simp: memmgr_init_def cfg_ok_def)

theorem memmgr_init_frame_witness:
  "bytes (memmgr_init cfg0 (mem0\<lparr>bytes := (\<lambda>_. 7), h_size := (\<lambda>_. 5)\<rparr>)) 4100 = 7 \<and>
   h_size (memmgr_init cfg0 (mem0\<lparr>bytes := (\<lambda>_. 7), h_size := (\<lambda>_. 5)\<rparr>)) 4100 = 5"
  using memmgr_init_frame [OF cfg0_ok, of 4100 "mem0\<lparr>bytes := (\<lambda>_. 7), h_size := (\<lambda>_. 5)\<rparr>"]
  by (simp add: cfg0_def)

end
